theory Spec2Isabelle
  imports Main
begin

section \<open>Data model of \<^verbatim>\<open>DependencyGraph.js\<close>\<close>

text \<open>
  The class keeps \<^verbatim>\<open>dependenciesPerFile\<close>, a JavaScript \<^verbatim>\<open>Map\<close> from a file to a
  \<^verbatim>\<open>Set\<close> of files, and the \<^verbatim>\<open>entryPoints\<close> it was constructed with. Both \<^verbatim>\<open>Map\<close>
  and \<^verbatim>\<open>Set\<close> iterate in insertion order, so the map is an association list in insertion
  order and each set is a duplicate-free list in insertion order. Keys are compared with
  HOL equality on the type \<open>'f\<close> of file identities (the \<^verbatim>\<open>Map\<close> compares keys with
  SameValueZero).
\<close>

type_synonym 'f depmap = "('f \<times> 'f list) list"

record 'f DependencyGraph =
  dependenciesPerFile :: "'f depmap"
  entryPoints :: "'f list"

text \<open>\<^verbatim>\<open>constructor(entryPoints)\<close>: a fresh empty map.\<close>

definition constructor :: "'f list \<Rightarrow> 'f DependencyGraph" where
  "constructor eps = \<lparr>dependenciesPerFile = [], entryPoints = eps\<rparr>"

text \<open>
  \<^verbatim>\<open>Map.prototype.keys\<close> and \<^verbatim>\<open>has\<close>, and the \<^verbatim>\<open>Set\<close> stored under a key, \<open>None\<close>
  when the key is absent.
\<close>

definition Map_keys :: "'f depmap \<Rightarrow> 'f list" where
  "Map_keys m = map fst m"

definition Map_has :: "'f depmap \<Rightarrow> 'f \<Rightarrow> bool" where
  "Map_has m k = (k \<in> set (Map_keys m))"

definition Map_get :: "'f depmap \<Rightarrow> 'f \<Rightarrow> 'f list option" where
  "Map_get m k = map_of m k"

text \<open>
  \<^verbatim>\<open>Map.prototype.set\<close>: an existing key keeps its position and gets the new value, a new
  key is appended.
\<close>

fun Map_set :: "'f \<Rightarrow> 'f list \<Rightarrow> 'f depmap \<Rightarrow> 'f depmap" where
  "Map_set k v [] = [(k, v)]"
| "Map_set k v ((k', v') # m) =
     (if k' = k then (k, v) # m else (k', v') # Map_set k v m)"

text \<open>\<^verbatim>\<open>Set.prototype.add\<close>: a value already present is not added again.\<close>

definition Set_add :: "'f \<Rightarrow> 'f list \<Rightarrow> 'f list" where
  "Set_add x s = (if x \<in> set s then s else s @ [x])"

text \<open>The \<^verbatim>\<open>Set\<close> stored under a key receives one more value.\<close>

fun Map_add :: "'f \<Rightarrow> 'f \<Rightarrow> 'f depmap \<Rightarrow> 'f depmap" where
  "Map_add k x [] = []"
| "Map_add k x ((k', s) # m) =
     (if k' = k then (k', Set_add x s) # m else (k', s) # Map_add k x m)"

text \<open>
  Lines 34 and 35, \<^verbatim>\<open>this.dependenciesPerFile.set(file, new Set())\<close>.
\<close>

definition set_dependencies :: "'f \<Rightarrow> 'f DependencyGraph \<Rightarrow> 'f DependencyGraph" where
  "set_dependencies f g = g\<lparr>dependenciesPerFile := Map_set f [] (dependenciesPerFile g)\<rparr>"

text \<open>
  Line 41, \<^verbatim>\<open>dependencies.add(dependency)\<close>. The local \<^verbatim>\<open>dependencies\<close> is the very
  \<^verbatim>\<open>Set\<close> object that line 35 stored under \<^verbatim>\<open>file\<close>. The only other \<^verbatim>\<open>Map.set\<close> calls
  that can run before the loop ends are those of the nested calls at line 44, which line 43
  allows only for keys not yet in the map, and nothing deletes a key: the set stored under
  \<^verbatim>\<open>file\<close> is still that object, and the mutation is an update of the entry of \<^verbatim>\<open>file\<close>.
\<close>

definition dependencies_add :: "'f \<Rightarrow> 'f \<Rightarrow> 'f DependencyGraph \<Rightarrow> 'f DependencyGraph" where
  "dependencies_add f d g = g\<lparr>dependenciesPerFile := Map_add f d (dependenciesPerFile g)\<rparr>"

section \<open>The collaborators and their calls\<close>

text \<open>
  \<^verbatim>\<open>getImports\<close> (required from \<^verbatim>\<open>./imports\<close>) and \<^verbatim>\<open>resolver.resolveImport\<close> are
  parameters: \<open>G f\<close> is the list of import specifiers of the file \<open>f\<close>, \<open>R f i\<close> the file
  that the specifier \<open>i\<close> of \<open>f\<close> resolves to, and \<open>Inl e\<close> is the exception \<open>e\<close> thrown
  by the call. Every call is logged together with the map as it is at the moment of the
  call, which is what the collaborator (or anything else that runs while the \<^verbatim>\<open>await\<close> is
  pending) can observe.
\<close>

datatype ('f, 'i) call = GetImports 'f | ResolveImport 'f 'i

datatype ('f, 'i) event = Event (call_of: "('f, 'i) call") (store_at: "'f depmap")

type_synonym ('f, 'i, 'e) outcome = "('f, 'i) event list \<times> ('e + 'f DependencyGraph)"

text \<open>
  The outcome of an \<^verbatim>\<open>async\<close> method: the calls it made, in order, and either the exception
  that rejected its promise or the graph after it. \<open>None\<close> stands for a run that does not
  return within the given depth of nested calls.
\<close>

definition logged ::
    "('f, 'i) event \<Rightarrow> ('f, 'i, 'e) outcome option \<Rightarrow> ('f, 'i, 'e) outcome option" where
  "logged ev r = (case r of None \<Rightarrow> None | Some (tr, x) \<Rightarrow> Some (ev # tr, x))"

section \<open>The traversal\<close>

text \<open>
  \<^verbatim>\<open>addDependenciesFrom(resolver, file)\<close> and its \<^verbatim>\<open>for (const imp of imports)\<close> loop.
  The first argument bounds the depth of nested \<^verbatim>\<open>addDependenciesFrom\<close> calls.
\<close>

fun addDependenciesFrom ::
    "nat \<Rightarrow> ('f \<Rightarrow> 'i \<Rightarrow> 'e + 'f) \<Rightarrow> ('f \<Rightarrow> 'e + 'i list) \<Rightarrow> 'f \<Rightarrow> 'f DependencyGraph
      \<Rightarrow> ('f, 'i, 'e) outcome option"
  and addDependenciesFrom_loop ::
    "nat \<Rightarrow> ('f \<Rightarrow> 'i \<Rightarrow> 'e + 'f) \<Rightarrow> ('f \<Rightarrow> 'e + 'i list) \<Rightarrow> 'f \<Rightarrow> 'i list
      \<Rightarrow> 'f DependencyGraph \<Rightarrow> ('f, 'i, 'e) outcome option"
where
  "addDependenciesFrom 0 R G file g = None"
| "addDependenciesFrom (Suc n) R G file g =
     (let g1 = set_dependencies file g in
      logged (Event (GetImports file) (dependenciesPerFile g1))
        (case G file of
           Inl e \<Rightarrow> Some ([], Inl e)
         | Inr imports \<Rightarrow> addDependenciesFrom_loop n R G file imports g1))"
| "addDependenciesFrom_loop n R G file [] g = Some ([], Inr g)"
| "addDependenciesFrom_loop n R G file (imp # rest) g =
     logged (Event (ResolveImport file imp) (dependenciesPerFile g))
       (case R file imp of
          Inl e \<Rightarrow> Some ([], Inl e)
        | Inr dependency \<Rightarrow>
            (let g1 = dependencies_add file dependency g in
             if \<not> Map_has (dependenciesPerFile g1) dependency then
               (case addDependenciesFrom n R G dependency g1 of
                  None \<Rightarrow> None
                | Some (tr, Inl e) \<Rightarrow> Some (tr, Inl e)
                | Some (tr, Inr g2) \<Rightarrow>
                    (case addDependenciesFrom_loop n R G file rest g2 of
                       None \<Rightarrow> None
                     | Some (tr', r) \<Rightarrow> Some (tr @ tr', r)))
             else addDependenciesFrom_loop n R G file rest g1))"

text \<open>
  \<^verbatim>\<open>createFromMultipleEntryPoints(resolver, entryPoints)\<close>: the loop over the entry
  points, started on the freshly constructed graph.
\<close>

fun createFromMultipleEntryPoints_loop ::
    "nat \<Rightarrow> ('f \<Rightarrow> 'i \<Rightarrow> 'e + 'f) \<Rightarrow> ('f \<Rightarrow> 'e + 'i list) \<Rightarrow> 'f list \<Rightarrow> 'f DependencyGraph
      \<Rightarrow> ('f, 'i, 'e) outcome option"
where
  "createFromMultipleEntryPoints_loop n R G [] graph = Some ([], Inr graph)"
| "createFromMultipleEntryPoints_loop n R G (entryPoint # rest) graph =
     (if \<not> Map_has (dependenciesPerFile graph) entryPoint then
        (case addDependenciesFrom n R G entryPoint graph of
           None \<Rightarrow> None
         | Some (tr, Inl e) \<Rightarrow> Some (tr, Inl e)
         | Some (tr, Inr graph') \<Rightarrow>
             (case createFromMultipleEntryPoints_loop n R G rest graph' of
                None \<Rightarrow> None
              | Some (tr', r) \<Rightarrow> Some (tr @ tr', r)))
      else createFromMultipleEntryPoints_loop n R G rest graph)"

definition createFromMultipleEntryPoints ::
    "nat \<Rightarrow> ('f \<Rightarrow> 'i \<Rightarrow> 'e + 'f) \<Rightarrow> ('f \<Rightarrow> 'e + 'i list) \<Rightarrow> 'f list
      \<Rightarrow> ('f, 'i, 'e) outcome option"
where
  "createFromMultipleEntryPoints n R G eps =
     createFromMultipleEntryPoints_loop n R G eps (constructor eps)"

definition createFromEntryPoint ::
    "nat \<Rightarrow> ('f \<Rightarrow> 'i \<Rightarrow> 'e + 'f) \<Rightarrow> ('f \<Rightarrow> 'e + 'i list) \<Rightarrow> 'f
      \<Rightarrow> ('f, 'i, 'e) outcome option"
where
  "createFromEntryPoint n R G entryPoint = createFromMultipleEntryPoints n R G [entryPoint]"

text \<open>\<^verbatim>\<open>getResolvedFiles()\<close>: the iterator over the keys of the map.\<close>

definition getResolvedFiles :: "'f DependencyGraph \<Rightarrow> 'f list" where
  "getResolvedFiles g = Map_keys (dependenciesPerFile g)"

text \<open>
  The members of an instance of the class, by name: the two fields the constructor sets
  and the two methods of the class body. The two \<^verbatim>\<open>static\<close> methods belong to the class
  and not to its instances, and the members every object inherits from
  \<^verbatim>\<open>Object.prototype\<close> are left out. \<open>None\<close> is \<^verbatim>\<open>undefined\<close>.
\<close>

datatype 'f member = MapField "'f depmap" | ArrayField "'f list" | Method

definition member_of :: "'f DependencyGraph \<Rightarrow> string \<Rightarrow> 'f member option" where
  "member_of g name =
     (if name = ''dependenciesPerFile'' then Some (MapField (dependenciesPerFile g))
      else if name = ''entryPoints'' then Some (ArrayField (entryPoints g))
      else if name = ''getResolvedFiles'' \<or> name = ''addDependenciesFrom'' then Some Method
      else None)"

text \<open>
  A call \<^verbatim>\<open>graph.name(...)\<close>: the name of the method that runs, or the \<^verbatim>\<open>TypeError\<close>
  thrown because \<^verbatim>\<open>graph.name\<close> is not a function.
\<close>

datatype js_error = TypeError

definition call_member :: "'f DependencyGraph \<Rightarrow> string \<Rightarrow> js_error + string" where
  "call_member g name = (case member_of g name of Some Method \<Rightarrow> Inr name | _ \<Rightarrow> Inl TypeError)"

section \<open>The traversal as a big-step relation\<close>

text \<open>
  The same two pieces of code, one rule for each path through them, without the depth
  bound: \<open>visit R G f g tr res\<close> says that \<^verbatim>\<open>addDependenciesFrom(resolver, f)\<close> run on
  the graph \<open>g\<close> makes the calls \<open>tr\<close> and ends with \<open>res\<close>. It is proved below to
  agree with the functions above and gives the induction principle of the proofs.
\<close>

inductive visit ::
    "('f \<Rightarrow> 'i \<Rightarrow> 'e + 'f) \<Rightarrow> ('f \<Rightarrow> 'e + 'i list) \<Rightarrow> 'f \<Rightarrow> 'f DependencyGraph
      \<Rightarrow> ('f, 'i) event list \<Rightarrow> 'e + 'f DependencyGraph \<Rightarrow> bool"
  and visit_imports ::
    "('f \<Rightarrow> 'i \<Rightarrow> 'e + 'f) \<Rightarrow> ('f \<Rightarrow> 'e + 'i list) \<Rightarrow> 'f \<Rightarrow> 'i list \<Rightarrow> 'f DependencyGraph
      \<Rightarrow> ('f, 'i) event list \<Rightarrow> 'e + 'f DependencyGraph \<Rightarrow> bool"
  for R :: "'f \<Rightarrow> 'i \<Rightarrow> 'e + 'f" and G :: "'f \<Rightarrow> 'e + 'i list"
where
  extract_fails:
    "G f = Inl e \<Longrightarrow>
     visit R G f g [Event (GetImports f) (dependenciesPerFile (set_dependencies f g))] (Inl e)"
| extract_ok:
    "G f = Inr imps \<Longrightarrow>
     visit_imports R G f imps (set_dependencies f g) tr res \<Longrightarrow>
     visit R G f g (Event (GetImports f) (dependenciesPerFile (set_dependencies f g)) # tr) res"
| loop_done:
    "visit_imports R G f [] g [] (Inr g)"
| resolve_fails:
    "R f i = Inl e \<Longrightarrow>
     visit_imports R G f (i # rest) g [Event (ResolveImport f i) (dependenciesPerFile g)] (Inl e)"
| seen:
    "R f i = Inr d \<Longrightarrow>
     Map_has (dependenciesPerFile (dependencies_add f d g)) d \<Longrightarrow>
     visit_imports R G f rest (dependencies_add f d g) tr res \<Longrightarrow>
     visit_imports R G f (i # rest) g (Event (ResolveImport f i) (dependenciesPerFile g) # tr) res"
| visit_fails:
    "R f i = Inr d \<Longrightarrow>
     \<not> Map_has (dependenciesPerFile (dependencies_add f d g)) d \<Longrightarrow>
     visit R G d (dependencies_add f d g) tr (Inl e) \<Longrightarrow>
     visit_imports R G f (i # rest) g
       (Event (ResolveImport f i) (dependenciesPerFile g) # tr) (Inl e)"
| visit_ok:
    "R f i = Inr d \<Longrightarrow>
     \<not> Map_has (dependenciesPerFile (dependencies_add f d g)) d \<Longrightarrow>
     visit R G d (dependencies_add f d g) tr1 (Inr g2) \<Longrightarrow>
     visit_imports R G f rest g2 tr2 res \<Longrightarrow>
     visit_imports R G f (i # rest) g
       (Event (ResolveImport f i) (dependenciesPerFile g) # tr1 @ tr2) res"

text \<open>The loop over the entry points, in the same style.\<close>

inductive visit_entries ::
    "('f \<Rightarrow> 'i \<Rightarrow> 'e + 'f) \<Rightarrow> ('f \<Rightarrow> 'e + 'i list) \<Rightarrow> 'f list \<Rightarrow> 'f DependencyGraph
      \<Rightarrow> ('f, 'i) event list \<Rightarrow> 'e + 'f DependencyGraph \<Rightarrow> bool"
  for R :: "'f \<Rightarrow> 'i \<Rightarrow> 'e + 'f" and G :: "'f \<Rightarrow> 'e + 'i list"
where
  entries_done:
    "visit_entries R G [] g [] (Inr g)"
| entry_seen:
    "Map_has (dependenciesPerFile g) ep \<Longrightarrow>
     visit_entries R G rest g tr res \<Longrightarrow>
     visit_entries R G (ep # rest) g tr res"
| entry_fails:
    "\<not> Map_has (dependenciesPerFile g) ep \<Longrightarrow>
     visit R G ep g tr (Inl e) \<Longrightarrow>
     visit_entries R G (ep # rest) g tr (Inl e)"
| entry_ok:
    "\<not> Map_has (dependenciesPerFile g) ep \<Longrightarrow>
     visit R G ep g tr1 (Inr g2) \<Longrightarrow>
     visit_entries R G rest g2 tr2 res \<Longrightarrow>
     visit_entries R G (ep # rest) g (tr1 @ tr2) res"

section \<open>What a log and a pair of collaborators say\<close>

text \<open>
  The file a call works on (the file whose imports are extracted, the source file of a
  resolution), and the keys of the map at the moment of a call.
\<close>

fun subject :: "('f, 'i) call \<Rightarrow> 'f" where
  "subject (GetImports f) = f"
| "subject (ResolveImport f i) = f"

definition keys_at :: "('f, 'i) event \<Rightarrow> 'f set" where
  "keys_at ev = set (Map_keys (store_at ev))"

text \<open>The keys seen by a call are among the keys seen by every later call.\<close>

definition keys_grow :: "('f, 'i) event list \<Rightarrow> bool" where
  "keys_grow tr = sorted_wrt (\<lambda>a b. keys_at a \<subseteq> keys_at b) tr"

text \<open>
  A log agrees with admission in order, starting from the key sequence \<open>ks\<close>: at the
  moment the extractor is called on a file, the key sequence of the map is the one of the
  call before followed by that file, and a call of the resolver sees the key sequence of
  the call before it.
\<close>

fun admission_log :: "'f list \<Rightarrow> ('f, 'i) event list \<Rightarrow> bool" where
  "admission_log ks [] = True"
| "admission_log ks (Event (GetImports f) m # tr) =
     (Map_keys m = ks @ [f] \<and> admission_log (ks @ [f]) tr)"
| "admission_log ks (Event (ResolveImport f i) m # tr) =
     (Map_keys m = ks \<and> admission_log ks tr)"

text \<open>The files on which \<^verbatim>\<open>getImports\<close> was called, in the order of the calls.\<close>

fun visits :: "('f, 'i) event list \<Rightarrow> 'f list" where
  "visits [] = []"
| "visits (Event (GetImports f) s # tr) = f # visits tr"
| "visits (Event (ResolveImport f i) s # tr) = visits tr"

text \<open>
  The specifiers for which \<^verbatim>\<open>resolveImport\<close> was called with the source file \<open>x\<close>, in
  the order of the calls.
\<close>

fun resolves_of :: "'f \<Rightarrow> ('f, 'i) event list \<Rightarrow> 'i list" where
  "resolves_of x [] = []"
| "resolves_of x (Event (GetImports f) s # tr) = resolves_of x tr"
| "resolves_of x (Event (ResolveImport f i) s # tr) =
     (if f = x then i # resolves_of x tr else resolves_of x tr)"

text \<open>The number of \<^verbatim>\<open>resolveImport\<close> calls in a log that returned the file \<open>x\<close>.\<close>

fun resolved_to :: "('f \<Rightarrow> 'i \<Rightarrow> 'e + 'f) \<Rightarrow> 'f \<Rightarrow> ('f, 'i) event list \<Rightarrow> nat" where
  "resolved_to R x [] = 0"
| "resolved_to R x (Event (GetImports f) s # tr) = resolved_to R x tr"
| "resolved_to R x (Event (ResolveImport f i) s # tr) =
     (if R f i = Inr x then Suc (resolved_to R x tr) else resolved_to R x tr)"

text \<open>The exception a call throws, if it throws, and the exceptions thrown in a log.\<close>

fun call_error ::
    "('f \<Rightarrow> 'i \<Rightarrow> 'e + 'f) \<Rightarrow> ('f \<Rightarrow> 'e + 'i list) \<Rightarrow> ('f, 'i) call \<Rightarrow> 'e option" where
  "call_error R G (GetImports f) = (case G f of Inl e \<Rightarrow> Some e | Inr imps \<Rightarrow> None)"
| "call_error R G (ResolveImport f i) = (case R f i of Inl e \<Rightarrow> Some e | Inr d \<Rightarrow> None)"

definition failures ::
    "('f \<Rightarrow> 'i \<Rightarrow> 'e + 'f) \<Rightarrow> ('f \<Rightarrow> 'e + 'i list) \<Rightarrow> ('f, 'i) event list \<Rightarrow> 'e list" where
  "failures R G tr = List.map_filter (\<lambda>ev. call_error R G (call_of ev)) tr"

text \<open>
  The import specifiers of a file (none when extraction fails), the files that a list of
  specifiers of \<open>f\<close> resolves to, the direct imports of a file, and the files reachable
  from a list of entry points through successful resolutions.
\<close>

definition imports_of :: "('f \<Rightarrow> 'e + 'i list) \<Rightarrow> 'f \<Rightarrow> 'i list" where
  "imports_of G f = (case G f of Inl e \<Rightarrow> [] | Inr imps \<Rightarrow> imps)"

definition resolutions :: "('f \<Rightarrow> 'i \<Rightarrow> 'e + 'f) \<Rightarrow> 'f \<Rightarrow> 'i list \<Rightarrow> 'f list" where
  "resolutions R f imps =
     List.map_filter (\<lambda>i. case R f i of Inl e \<Rightarrow> None | Inr d \<Rightarrow> Some d) imps"

definition direct_imports ::
    "('f \<Rightarrow> 'i \<Rightarrow> 'e + 'f) \<Rightarrow> ('f \<Rightarrow> 'e + 'i list) \<Rightarrow> 'f \<Rightarrow> 'f set" where
  "direct_imports R G f = set (resolutions R f (imports_of G f))"

definition import_rel ::
    "('f \<Rightarrow> 'i \<Rightarrow> 'e + 'f) \<Rightarrow> ('f \<Rightarrow> 'e + 'i list) \<Rightarrow> ('f \<times> 'f) set" where
  "import_rel R G = {(f, d). d \<in> direct_imports R G f}"

definition reachable ::
    "('f \<Rightarrow> 'i \<Rightarrow> 'e + 'f) \<Rightarrow> ('f \<Rightarrow> 'e + 'i list) \<Rightarrow> 'f list \<Rightarrow> 'f set" where
  "reachable R G eps = (import_rel R G)\<^sup>* `` set eps"

text \<open>The dependency set stored for a file, empty for a file that is not a key.\<close>

definition deps_of :: "'f depmap \<Rightarrow> 'f \<Rightarrow> 'f set" where
  "deps_of m x = (case Map_get m x of None \<Rightarrow> {} | Some s \<Rightarrow> set s)"

section \<open>Example files and collaborators\<close>

datatype example_file = FileA | FileB | FileC

datatype example_error = ExtractionError example_file | ResolutionError example_file string

definition example_resolver :: "example_file \<Rightarrow> string \<Rightarrow> example_error + example_file" where
  "example_resolver f i =
     (if i = ''./A'' then Inr FileA
      else if i = ''./B'' then Inr FileB
      else if i = ''./C'' then Inr FileC
      else Inl (ResolutionError f i))"

text \<open>\<open>A\<close> imports \<open>B\<close>, \<open>B\<close> imports nothing.\<close>

fun chain_imports :: "example_file \<Rightarrow> example_error + string list" where
  "chain_imports FileA = Inr [''./B'']"
| "chain_imports FileB = Inr []"
| "chain_imports FileC = Inr []"

text \<open>\<open>A\<close> imports \<open>B\<close>, \<open>B\<close> imports \<open>A\<close>.\<close>

fun cycle_imports :: "example_file \<Rightarrow> example_error + string list" where
  "cycle_imports FileA = Inr [''./B'']"
| "cycle_imports FileB = Inr [''./A'']"
| "cycle_imports FileC = Inr []"

text \<open>\<open>A\<close> and \<open>B\<close> both import \<open>C\<close>, \<open>C\<close> imports nothing.\<close>

fun diamond_imports :: "example_file \<Rightarrow> example_error + string list" where
  "diamond_imports FileA = Inr [''./C'']"
| "diamond_imports FileB = Inr [''./C'']"
| "diamond_imports FileC = Inr []"

text \<open>\<open>A\<close> imports itself and then a specifier that does not resolve.\<close>

fun broken_imports :: "example_file \<Rightarrow> example_error + string list" where
  "broken_imports FileA = Inr [''./A'', ''./missing'']"
| "broken_imports FileB = Inr []"
| "broken_imports FileC = Inr []"

text \<open>The outcomes of the builds on these examples.\<close>

definition chain_calls :: "(example_file, string) event list" where
  "chain_calls =
     [Event (GetImports FileA) [(FileA, [])],
      Event (ResolveImport FileA ''./B'') [(FileA, [])],
      Event (GetImports FileB) [(FileA, [FileB]), (FileB, [])]]"

definition chain_graph :: "example_file DependencyGraph" where
  "chain_graph =
     \<lparr>dependenciesPerFile = [(FileA, [FileB]), (FileB, [])], entryPoints = [FileA]\<rparr>"

definition cycle_calls :: "(example_file, string) event list" where
  "cycle_calls =
     [Event (GetImports FileA) [(FileA, [])],
      Event (ResolveImport FileA ''./B'') [(FileA, [])],
      Event (GetImports FileB) [(FileA, [FileB]), (FileB, [])],
      Event (ResolveImport FileB ''./A'') [(FileA, [FileB]), (FileB, [])]]"

definition cycle_graph :: "example_file DependencyGraph" where
  "cycle_graph =
     \<lparr>dependenciesPerFile = [(FileA, [FileB]), (FileB, [FileA])], entryPoints = [FileA]\<rparr>"

definition diamond_calls :: "(example_file, string) event list" where
  "diamond_calls =
     [Event (GetImports FileA) [(FileA, [])],
      Event (ResolveImport FileA ''./C'') [(FileA, [])],
      Event (GetImports FileC) [(FileA, [FileC]), (FileC, [])],
      Event (GetImports FileB) [(FileA, [FileC]), (FileC, []), (FileB, [])],
      Event (ResolveImport FileB ''./C'') [(FileA, [FileC]), (FileC, []), (FileB, [])]]"

definition diamond_graph :: "example_file DependencyGraph" where
  "diamond_graph =
     \<lparr>dependenciesPerFile = [(FileA, [FileC]), (FileC, []), (FileB, [FileC])],
      entryPoints = [FileA, FileB]\<rparr>"

definition broken_calls :: "(example_file, string) event list" where
  "broken_calls =
     [Event (GetImports FileA) [(FileA, [])],
      Event (ResolveImport FileA ''./A'') [(FileA, [])],
      Event (ResolveImport FileA ''./missing'') [(FileA, [FileA])]]"

text \<open>
  \<open>A\<close> imports \<open>B\<close> and \<open>C\<close>; and the same file with the two imports written in the
  other order, the second of them twice.
\<close>

fun fork_imports :: "example_file \<Rightarrow> example_error + string list" where
  "fork_imports FileA = Inr [''./B'', ''./C'']"
| "fork_imports FileB = Inr []"
| "fork_imports FileC = Inr []"

fun fork_imports_rev :: "example_file \<Rightarrow> example_error + string list" where
  "fork_imports_rev FileA = Inr [''./C'', ''./B'', ''./C'']"
| "fork_imports_rev FileB = Inr []"
| "fork_imports_rev FileC = Inr []"

definition fork_calls :: "(example_file, string) event list" where
  "fork_calls =
     [Event (GetImports FileA) [(FileA, [])],
      Event (ResolveImport FileA ''./B'') [(FileA, [])],
      Event (GetImports FileB) [(FileA, [FileB]), (FileB, [])],
      Event (ResolveImport FileA ''./C'') [(FileA, [FileB]), (FileB, [])],
      Event (GetImports FileC) [(FileA, [FileB, FileC]), (FileB, []), (FileC, [])]]"

definition fork_graph :: "example_file DependencyGraph" where
  "fork_graph =
     \<lparr>dependenciesPerFile = [(FileA, [FileB, FileC]), (FileB, []), (FileC, [])],
      entryPoints = [FileA, FileB]\<rparr>"

definition fork_rev_calls :: "(example_file, string) event list" where
  "fork_rev_calls =
     [Event (GetImports FileB) [(FileB, [])],
      Event (GetImports FileA) [(FileB, []), (FileA, [])],
      Event (ResolveImport FileA ''./C'') [(FileB, []), (FileA, [])],
      Event (GetImports FileC) [(FileB, []), (FileA, [FileC]), (FileC, [])],
      Event (ResolveImport FileA ''./B'') [(FileB, []), (FileA, [FileC]), (FileC, [])],
      Event (ResolveImport FileA ''./C'') [(FileB, []), (FileA, [FileC, FileB]), (FileC, [])]]"

definition fork_rev_graph :: "example_file DependencyGraph" where
  "fork_rev_graph =
     \<lparr>dependenciesPerFile = [(FileB, []), (FileA, [FileC, FileB]), (FileC, [])],
      entryPoints = [FileB, FileA]\<rparr>"

text \<open>
  Files named by numbers: the file \<open>0\<close> imports itself and the file \<open>1\<close>, and every
  other file \<open>k\<close> imports the file \<open>k + 1\<close>. The specifier \<open>False\<close> stands for the file
  itself and \<open>True\<close> for the next one. The import relation has a cycle, and no finite set
  of files holds all that is reachable from the file \<open>0\<close>.
\<close>

definition looping_imports :: "nat \<Rightarrow> example_error + bool list" where
  "looping_imports k = (if k = 0 then Inr [False, True] else Inr [True])"

definition looping_resolver :: "nat \<Rightarrow> bool \<Rightarrow> example_error + nat" where
  "looping_resolver k i = Inr (if i then Suc k else k)"

section \<open>The map operations\<close>

lemma Map_keys_Map_set:
  "Map_keys (Map_set k v m) = (if k \<in> set (Map_keys m) then Map_keys m else Map_keys m @ [k])"
  by (induction m) (force simp: Map_keys_def)+

lemma Map_keys_Map_add [simp]: "Map_keys (Map_add k x m) = Map_keys m"
  by (induction m) (auto simp: Map_keys_def)

lemma Map_get_Map_set: "Map_get (Map_set k v m) x = (if x = k then Some v else Map_get m x)"
  by (induction m) (auto simp: Map_get_def)

lemma Map_get_Map_add:
  "Map_get (Map_add k d m) x =
     (if x = k then map_option (Set_add d) (Map_get m k) else Map_get m x)"
  by (induction m) (auto simp: Map_get_def)

lemma set_Set_add [simp]: "set (Set_add d s) = insert d (set s)"
  by (auto simp: Set_add_def)

lemma distinct_Set_add [simp]: "distinct (Set_add d s) = distinct s"
  by (auto simp: Set_add_def)

lemma Map_get_eq_None: "Map_get m x = None \<longleftrightarrow> x \<notin> set (Map_keys m)"
  by (simp add: Map_get_def Map_keys_def map_of_eq_None_iff)

lemma Map_get_Some_key: "Map_get m x = Some s \<Longrightarrow> x \<in> set (Map_keys m)"
  using Map_get_eq_None [of m x] by auto

lemma keys_set_dependencies:
  "Map_keys (dependenciesPerFile (set_dependencies f g)) =
     (if f \<in> set (Map_keys (dependenciesPerFile g)) then Map_keys (dependenciesPerFile g)
      else Map_keys (dependenciesPerFile g) @ [f])"
  by (simp add: set_dependencies_def Map_keys_Map_set)

lemma keys_dependencies_add [simp]:
  "Map_keys (dependenciesPerFile (dependencies_add f d g)) = Map_keys (dependenciesPerFile g)"
  by (simp add: dependencies_add_def)

lemma entryPoints_set_dependencies [simp]:
  "entryPoints (set_dependencies f g) = entryPoints g"
  by (simp add: set_dependencies_def)

lemma entryPoints_dependencies_add [simp]:
  "entryPoints (dependencies_add f d g) = entryPoints g"
  by (simp add: dependencies_add_def)

lemma deps_of_set_dependencies:
  "deps_of (dependenciesPerFile (set_dependencies f g)) x =
     (if x = f then {} else deps_of (dependenciesPerFile g) x)"
  by (simp add: deps_of_def set_dependencies_def Map_get_Map_set)

lemma deps_of_dependencies_add:
  "deps_of (dependenciesPerFile (dependencies_add f d g)) x =
     (if x = f \<and> f \<in> set (Map_keys (dependenciesPerFile g))
      then insert d (deps_of (dependenciesPerFile g) f)
      else deps_of (dependenciesPerFile g) x)"
  by (auto simp: deps_of_def dependencies_add_def Map_get_Map_add Map_get_eq_None
           split: option.splits dest: Map_get_Some_key)

lemma visits_append [simp]: "visits (tr @ tr') = visits tr @ visits tr'"
  by (induction tr rule: visits.induct) auto

lemma resolves_of_append [simp]: "resolves_of x (tr @ tr') = resolves_of x tr @ resolves_of x tr'"
  by (induction x tr rule: resolves_of.induct) auto

lemma resolved_to_append [simp]:
  "resolved_to R x (tr @ tr') = resolved_to R x tr + resolved_to R x tr'"
  by (induction R x tr rule: resolved_to.induct) auto

lemma failures_simps [simp]:
  "failures R G [] = []"
  "failures R G (ev # tr) =
     (case call_error R G (call_of ev) of None \<Rightarrow> failures R G tr
      | Some e \<Rightarrow> e # failures R G tr)"
  "failures R G (tr @ tr') = failures R G tr @ failures R G tr'"
  by (auto simp: failures_def List.map_filter_def split: option.splits)

section \<open>The functions and the relation agree\<close>

lemma loggedE:
  assumes "logged ev r = Some (tr, x)"
  obtains tr' where "tr = ev # tr'" "r = Some (tr', x)"
  using assms by (auto simp: logged_def split: option.splits)

lemma addDependenciesFrom_loop_ConsE:
  assumes "addDependenciesFrom_loop n R G f (imp # rest) g = Some (tr, res)"
  obtains (resolve_fails) e where
      "R f imp = Inl e"
      "tr = [Event (ResolveImport f imp) (dependenciesPerFile g)]"
      "res = Inl e"
  | (seen) d tr' where
      "R f imp = Inr d"
      "Map_has (dependenciesPerFile (dependencies_add f d g)) d"
      "tr = Event (ResolveImport f imp) (dependenciesPerFile g) # tr'"
      "addDependenciesFrom_loop n R G f rest (dependencies_add f d g) = Some (tr', res)"
  | (visit_fails) d tr' e where
      "R f imp = Inr d"
      "\<not> Map_has (dependenciesPerFile (dependencies_add f d g)) d"
      "tr = Event (ResolveImport f imp) (dependenciesPerFile g) # tr'"
      "addDependenciesFrom n R G d (dependencies_add f d g) = Some (tr', Inl e)"
      "res = Inl e"
  | (visit_ok) d tr1 g2 tr2 where
      "R f imp = Inr d"
      "\<not> Map_has (dependenciesPerFile (dependencies_add f d g)) d"
      "tr = Event (ResolveImport f imp) (dependenciesPerFile g) # tr1 @ tr2"
      "addDependenciesFrom n R G d (dependencies_add f d g) = Some (tr1, Inr g2)"
      "addDependenciesFrom_loop n R G f rest g2 = Some (tr2, res)"
  using assms
  by (auto simp: Let_def elim!: loggedE split: sum.splits option.splits if_splits)

lemma addDependenciesFrom_visit:
  "addDependenciesFrom n R G f g = Some (tr, res) \<Longrightarrow> visit R G f g tr res"
  "addDependenciesFrom_loop n R G f imps g = Some (tr, res) \<Longrightarrow> visit_imports R G f imps g tr res"
proof (induction n R G f g and n R G f imps g arbitrary: tr res and tr res
       rule: addDependenciesFrom_addDependenciesFrom_loop.induct)
  case (1 R G f g)
  then show ?case by simp
next
  case (2 n R G f g)
  then show ?case
    by (auto simp: Let_def elim!: loggedE split: sum.splits intro: visit_visit_imports.intros)
next
  case (3 n R G f g)
  then show ?case by (auto intro: visit_visit_imports.intros)
next
  case (4 n R G f imp rest g)
  from "4.prems" show ?case
  proof (cases rule: addDependenciesFrom_loop_ConsE)
    case (resolve_fails e)
    then show ?thesis by (auto intro: visit_visit_imports.intros)
  next
    case (seen d tr')
    with "4.IH"(3) show ?thesis by (auto intro: visit_visit_imports.intros)
  next
    case (visit_fails d tr' e)
    with "4.IH"(1) show ?thesis by (auto intro: visit_visit_imports.intros)
  next
    case (visit_ok d tr1 g2 tr2)
    from "4.IH"(1)[OF visit_ok(1) refl visit_ok(2) visit_ok(4)]
    have v: "visit R G d (dependencies_add f d g) tr1 (Inr g2)" .
    from "4.IH"(2)[OF visit_ok(1) refl visit_ok(2) visit_ok(4) refl refl visit_ok(5)]
    have l: "visit_imports R G f rest g2 tr2 res" .
    show ?thesis
      unfolding visit_ok(3)
      by (rule visit_visit_imports.visit_ok [OF visit_ok(1) visit_ok(2) v l])
  qed
qed

lemma createFromMultipleEntryPoints_loop_visit_entries:
  "createFromMultipleEntryPoints_loop n R G eps g = Some (tr, res) \<Longrightarrow>
     visit_entries R G eps g tr res"
proof (induction eps arbitrary: g tr res)
  case Nil
  then show ?case by (auto intro: visit_entries.intros)
next
  case (Cons ep eps)
  show ?case
  proof (cases "Map_has (dependenciesPerFile g) ep")
    case True
    with Cons show ?thesis by (auto intro: visit_entries.intros)
  next
    case False
    with Cons.prems obtain tr1 r1 where
      v: "addDependenciesFrom n R G ep g = Some (tr1, r1)"
      by (auto split: option.splits)
    show ?thesis
    proof (cases r1)
      case (Inl e)
      with v False Cons.prems show ?thesis
        by (auto intro: visit_entries.entry_fails addDependenciesFrom_visit(1))
    next
      case (Inr g2)
      with v False Cons.prems obtain tr2 where
        l: "createFromMultipleEntryPoints_loop n R G eps g2 = Some (tr2, res)"
        and tr: "tr = tr1 @ tr2"
        by (auto split: option.splits)
      from v Inr have "visit R G ep g tr1 (Inr g2)"
        by (auto intro: addDependenciesFrom_visit(1))
      from False this Cons.IH [OF l] show ?thesis
        unfolding tr by (rule visit_entries.entry_ok)
    qed
  qed
qed

lemma createFromMultipleEntryPoints_visit_entries:
  "createFromMultipleEntryPoints n R G eps = Some (tr, res) \<Longrightarrow>
     visit_entries R G eps (constructor eps) tr res"
  unfolding createFromMultipleEntryPoints_def
  by (rule createFromMultipleEntryPoints_loop_visit_entries)

section \<open>Keys of the map and calls of the extractor\<close>

lemma Map_has_iff [simp]:
  "Map_has (dependenciesPerFile g) f \<longleftrightarrow> f \<in> set (getResolvedFiles g)"
  by (simp add: Map_has_def getResolvedFiles_def)

lemma getResolvedFiles_set_dependencies:
  "getResolvedFiles (set_dependencies f g) =
     (if f \<in> set (getResolvedFiles g) then getResolvedFiles g else getResolvedFiles g @ [f])"
  by (simp add: getResolvedFiles_def keys_set_dependencies)

lemma getResolvedFiles_dependencies_add [simp]:
  "getResolvedFiles (dependencies_add f d g) = getResolvedFiles g"
  by (simp add: getResolvedFiles_def)

lemma getResolvedFiles_constructor [simp]: "getResolvedFiles (constructor eps) = []"
  by (simp add: getResolvedFiles_def constructor_def Map_keys_def)

lemma visit_starts:
  assumes "visit R G f g tr res"
  obtains tr' where "tr = Event (GetImports f) (dependenciesPerFile (set_dependencies f g)) # tr'"
  using assms by (cases rule: visit.cases) auto

lemma visit_visits: "visit R G f g tr res \<Longrightarrow> f \<in> set (visits tr)"
  by (erule visit_starts) simp

text \<open>
  After a run that returns, the keys are the keys before it followed by the files on
  which it called the extractor, in the order of the calls.
\<close>

lemma keys_after:
  "visit R G f g tr res \<Longrightarrow> res = Inr g' \<Longrightarrow> f \<notin> set (getResolvedFiles g) \<Longrightarrow>
     getResolvedFiles g' = getResolvedFiles g @ visits tr"
  "visit_imports R G f imps g tr res \<Longrightarrow> res = Inr g' \<Longrightarrow>
     getResolvedFiles g' = getResolvedFiles g @ visits tr"
proof (induct arbitrary: g' and g' rule: visit_visit_imports.inducts)
  case (extract_ok f imps g tr res)
  then show ?case by (simp add: getResolvedFiles_set_dependencies)
next
  case (visit_ok f i d g tr1 g2 rest tr2 res)
  then show ?case by simp
qed simp_all

lemma keys_after_entries:
  "visit_entries R G eps g tr res \<Longrightarrow> res = Inr g' \<Longrightarrow>
     getResolvedFiles g' = getResolvedFiles g @ visits tr"
proof (induct arbitrary: g' rule: visit_entries.induct)
  case (entry_ok g ep tr1 g2 rest tr2 res)
  then show ?case by (simp add: keys_after(1))
qed simp_all

text \<open>The extractor is called only on files that are not yet keys, and once on each.\<close>

lemma visits_fresh:
  "visit R G f g tr res \<Longrightarrow> f \<notin> set (getResolvedFiles g) \<Longrightarrow>
     set (visits tr) \<inter> set (getResolvedFiles g) = {}"
  "visit_imports R G f imps g tr res \<Longrightarrow>
     set (visits tr) \<inter> set (getResolvedFiles g) = {}"
proof (induct rule: visit_visit_imports.inducts)
  case (extract_ok f imps g tr res)
  then show ?case by (auto simp: getResolvedFiles_set_dependencies)
next
  case (visit_ok f i d g tr1 g2 rest tr2 res)
  then show ?case using keys_after(1) [OF visit_ok.hyps(3) refl] by auto
qed auto

lemma visits_fresh_entries:
  "visit_entries R G eps g tr res \<Longrightarrow> set (visits tr) \<inter> set (getResolvedFiles g) = {}"
proof (induct rule: visit_entries.induct)
  case (entry_fails g ep tr e rest)
  then show ?case by (simp add: visits_fresh(1))
next
  case (entry_ok g ep tr1 g2 rest tr2 res)
  then show ?case
    using keys_after(1) [OF entry_ok.hyps(2) refl] visits_fresh(1) [OF entry_ok.hyps(2)] by auto
qed auto

lemma visits_distinct:
  "visit R G f g tr res \<Longrightarrow> f \<notin> set (getResolvedFiles g) \<Longrightarrow> distinct (visits tr)"
  "visit_imports R G f imps g tr res \<Longrightarrow> distinct (visits tr)"
proof (induct rule: visit_visit_imports.inducts)
  case (extract_ok f imps g tr res)
  then show ?case
    using visits_fresh(2) [OF extract_ok.hyps(2)]
    by (auto simp: getResolvedFiles_set_dependencies)
next
  case (visit_ok f i d g tr1 g2 rest tr2 res)
  then show ?case
    using keys_after(1) [OF visit_ok.hyps(3) refl] visits_fresh(2) [OF visit_ok.hyps(5)]
    by auto
qed auto

lemma visits_distinct_entries:
  "visit_entries R G eps g tr res \<Longrightarrow> distinct (visits tr)"
proof (induct rule: visit_entries.induct)
  case (entry_fails g ep tr e rest)
  then show ?case by (simp add: visits_distinct(1))
next
  case (entry_ok g ep tr1 g2 rest tr2 res)
  then show ?case
    using keys_after(1) [OF entry_ok.hyps(2) refl] visits_fresh_entries [OF entry_ok.hyps(3)]
      visits_distinct(1) [OF entry_ok.hyps(2)]
    by auto
qed auto

text \<open>A run changes the entries of the files it visits, and a loop that of its own file.\<close>

lemma others_unchanged:
  "visit R G f g tr res \<Longrightarrow> res = Inr g' \<Longrightarrow> x \<notin> set (visits tr) \<Longrightarrow>
     Map_get (dependenciesPerFile g') x = Map_get (dependenciesPerFile g) x"
  "visit_imports R G f imps g tr res \<Longrightarrow> res = Inr g' \<Longrightarrow> x \<noteq> f \<Longrightarrow> x \<notin> set (visits tr) \<Longrightarrow>
     Map_get (dependenciesPerFile g') x = Map_get (dependenciesPerFile g) x"
proof (induct arbitrary: g' and g' rule: visit_visit_imports.inducts)
  case (extract_ok f imps g tr res)
  then show ?case by (simp add: set_dependencies_def Map_get_Map_set)
next
  case (seen f i d g rest tr res)
  then show ?case by (simp add: dependencies_add_def Map_get_Map_add)
next
  case (visit_ok f i d g tr1 g2 rest tr2 res)
  then show ?case by (simp add: dependencies_add_def Map_get_Map_add)
qed simp_all

lemma others_unchanged_entries:
  "visit_entries R G eps g tr res \<Longrightarrow> res = Inr g' \<Longrightarrow> x \<notin> set (visits tr) \<Longrightarrow>
     Map_get (dependenciesPerFile g') x = Map_get (dependenciesPerFile g) x"
proof (induct arbitrary: g' rule: visit_entries.induct)
  case (entry_ok g ep tr1 g2 rest tr2 res)
  then show ?case using others_unchanged(1) [OF entry_ok.hyps(2) refl, of x] by simp
qed simp_all

section \<open>The dependency sets\<close>

lemma resolutions_simps [simp]:
  "resolutions R f [] = []"
  "resolutions R f (i # imps) =
     (case R f i of Inl e \<Rightarrow> resolutions R f imps | Inr d \<Rightarrow> d # resolutions R f imps)"
  by (auto simp: resolutions_def List.map_filter_def split: sum.splits)

lemma deps_of_unchanged:
  "Map_get m' x = Map_get m x \<Longrightarrow> deps_of m' x = deps_of m x"
  by (simp add: deps_of_def)

text \<open>
  A loop that returns has added to the set of its file the files its specifiers resolve
  to, and a visit that returns leaves exactly the direct imports of its file.
\<close>

lemma loop_deps:
  "visit_imports R G f imps g tr res \<Longrightarrow> res = Inr g' \<Longrightarrow> f \<in> set (getResolvedFiles g) \<Longrightarrow>
     deps_of (dependenciesPerFile g') f =
       deps_of (dependenciesPerFile g) f \<union> set (resolutions R f imps)"
proof (induct f imps g tr res arbitrary: g'
       rule: visit_visit_imports.inducts(2) [where ?P1.0 = "\<lambda>f g tr res. True"])
  case (seen f i d g rest tr res)
  then show ?case
    by (simp add: deps_of_dependencies_add getResolvedFiles_def)
next
  case (visit_ok f i d g tr1 g2 rest tr2 res)
  have fresh: "f \<notin> set (visits tr1)"
    using visits_fresh(1) [OF visit_ok.hyps(3)] visit_ok.hyps(2) visit_ok.prems(2) by auto
  have keys: "getResolvedFiles g2 = getResolvedFiles g @ visits tr1"
    using keys_after(1) [OF visit_ok.hyps(3) refl] visit_ok.hyps(2) by simp
  have "deps_of (dependenciesPerFile g2) f = deps_of (dependenciesPerFile (dependencies_add f d g)) f"
    by (rule deps_of_unchanged) (rule others_unchanged(1) [OF visit_ok.hyps(3) refl fresh])
  moreover have "deps_of (dependenciesPerFile g') f =
      deps_of (dependenciesPerFile g2) f \<union> set (resolutions R f rest)"
    using visit_ok.hyps(6) [OF visit_ok.prems(1)] keys visit_ok.prems(2) by simp
  ultimately show ?case
    using visit_ok.hyps(1) visit_ok.prems(2)
    by (simp add: deps_of_dependencies_add getResolvedFiles_def)
qed simp_all

lemma visit_deps:
  assumes "visit R G f g tr (Inr g')"
  shows "deps_of (dependenciesPerFile g') f = direct_imports R G f"
  using assms
proof (cases rule: visit.cases)
  case (extract_ok imps tr')
  from loop_deps [OF extract_ok(3) refl] extract_ok(2) show ?thesis
    by (simp add: getResolvedFiles_set_dependencies deps_of_set_dependencies
        direct_imports_def imports_of_def)
qed

text \<open>Every file visited by a run that returns is left with exactly its direct imports.\<close>

lemma visited_deps:
  "visit R G f g tr res \<Longrightarrow> res = Inr g' \<Longrightarrow> f \<notin> set (getResolvedFiles g) \<Longrightarrow>
     x \<in> set (visits tr) \<Longrightarrow> deps_of (dependenciesPerFile g') x = direct_imports R G x"
  "visit_imports R G f imps g tr res \<Longrightarrow> res = Inr g' \<Longrightarrow> f \<in> set (getResolvedFiles g) \<Longrightarrow>
     x \<in> set (visits tr) \<Longrightarrow> deps_of (dependenciesPerFile g') x = direct_imports R G x"
proof (induct arbitrary: g' and g' rule: visit_visit_imports.inducts)
  case (extract_ok f imps g tr res)
  show ?case
  proof (cases "x = f")
    case True
    from visit_visit_imports.extract_ok [OF extract_ok.hyps(1,2)] extract_ok.prems(1)
    show ?thesis unfolding True by (simp add: visit_deps)
  next
    case False
    with extract_ok.prems have "x \<in> set (visits tr)" by simp
    with extract_ok.hyps(3) [OF extract_ok.prems(1)] show ?thesis
      by (simp add: getResolvedFiles_set_dependencies)
  qed
next
  case (visit_ok f i d g tr1 g2 rest tr2 res)
  have d: "d \<notin> set (getResolvedFiles (dependencies_add f d g))"
    using visit_ok.hyps(2) by simp
  have keys: "getResolvedFiles g2 = getResolvedFiles g @ visits tr1"
    using keys_after(1) [OF visit_ok.hyps(3) refl d] by simp
  have f2: "f \<in> set (getResolvedFiles g2)"
    using keys visit_ok.prems(2) by simp
  show ?case
  proof (cases "x \<in> set (visits tr2)")
    case True
    then show ?thesis by (rule visit_ok.hyps(6) [OF visit_ok.prems(1) f2])
  next
    case False
    with visit_ok.prems(3) have x1: "x \<in> set (visits tr1)" by simp
    have "x \<noteq> f"
      using visits_fresh(1) [OF visit_ok.hyps(3) d] x1 visit_ok.prems(2) by auto
    from others_unchanged(2) [OF visit_ok.hyps(5) visit_ok.prems(1) this False]
    have "deps_of (dependenciesPerFile g') x = deps_of (dependenciesPerFile g2) x"
      by (rule deps_of_unchanged)
    also have "\<dots> = direct_imports R G x"
      by (rule visit_ok.hyps(4) [OF refl d x1])
    finally show ?thesis .
  qed
qed simp_all

lemma visited_deps_entries:
  "visit_entries R G eps g tr res \<Longrightarrow> res = Inr g' \<Longrightarrow> x \<in> set (visits tr) \<Longrightarrow>
     deps_of (dependenciesPerFile g') x = direct_imports R G x"
proof (induct arbitrary: g' rule: visit_entries.induct)
  case (entry_ok g ep tr1 g2 rest tr2 res)
  have ep: "ep \<notin> set (getResolvedFiles g)"
    using entry_ok.hyps(1) by simp
  show ?case
  proof (cases "x \<in> set (visits tr2)")
    case True
    then show ?thesis by (rule entry_ok.hyps(4) [OF entry_ok.prems(1)])
  next
    case False
    with entry_ok.prems(2) have x1: "x \<in> set (visits tr1)" by simp
    from others_unchanged_entries [OF entry_ok.hyps(3) entry_ok.prems(1) False]
    have "deps_of (dependenciesPerFile g') x = deps_of (dependenciesPerFile g2) x"
      by (rule deps_of_unchanged)
    also have "\<dots> = direct_imports R G x"
      by (rule visited_deps(1) [OF entry_ok.hyps(2) refl ep x1])
    finally show ?thesis .
  qed
qed simp_all

text \<open>Whatever a run that returns has added to a dependency set is a key afterwards.\<close>

lemma added_deps_are_keys:
  "visit R G f g tr res \<Longrightarrow> res = Inr g' \<Longrightarrow> f \<notin> set (getResolvedFiles g) \<Longrightarrow>
     deps_of (dependenciesPerFile g') x \<subseteq>
       deps_of (dependenciesPerFile g) x \<union> set (getResolvedFiles g')"
  "visit_imports R G f imps g tr res \<Longrightarrow> res = Inr g' \<Longrightarrow>
     deps_of (dependenciesPerFile g') x \<subseteq>
       deps_of (dependenciesPerFile g) x \<union> set (getResolvedFiles g')"
proof (induct arbitrary: g' and g' rule: visit_visit_imports.inducts)
  case (extract_ok f imps g tr res)
  from extract_ok.hyps(3) [OF extract_ok.prems(1)] show ?case
    by (auto simp: deps_of_set_dependencies split: if_splits)
next
  case (seen f i d g rest tr res)
  from seen.hyps(4) [OF seen.prems(1)] seen.hyps(2)
    keys_after(2) [OF seen.hyps(3) seen.prems(1)]
  show ?case
    by (auto simp: deps_of_dependencies_add split: if_splits)
next
  case (visit_ok f i d g tr1 g2 rest tr2 res)
  have d: "d \<notin> set (getResolvedFiles (dependencies_add f d g))"
    using visit_ok.hyps(2) by simp
  have "d \<in> set (getResolvedFiles g2)"
    using keys_after(1) [OF visit_ok.hyps(3) refl d] visit_visits [OF visit_ok.hyps(3)] by simp
  then have "d \<in> set (getResolvedFiles g')"
    using keys_after(2) [OF visit_ok.hyps(5) visit_ok.prems(1)] by simp
  moreover have "set (getResolvedFiles g2) \<subseteq> set (getResolvedFiles g')"
    using keys_after(2) [OF visit_ok.hyps(5) visit_ok.prems(1)] by simp
  ultimately show ?case
    using visit_ok.hyps(4) [OF refl d] visit_ok.hyps(6) [OF visit_ok.prems(1)]
    by (auto simp: deps_of_dependencies_add split: if_splits)
qed simp_all

lemma added_deps_are_keys_entries:
  "visit_entries R G eps g tr res \<Longrightarrow> res = Inr g' \<Longrightarrow>
     deps_of (dependenciesPerFile g') x \<subseteq>
       deps_of (dependenciesPerFile g) x \<union> set (getResolvedFiles g')"
proof (induct arbitrary: g' rule: visit_entries.induct)
  case (entry_ok g ep tr1 g2 rest tr2 res)
  have ep: "ep \<notin> set (getResolvedFiles g)"
    using entry_ok.hyps(1) by simp
  have "set (getResolvedFiles g2) \<subseteq> set (getResolvedFiles g')"
    using keys_after_entries [OF entry_ok.hyps(3) entry_ok.prems(1)] by simp
  then show ?case
    using added_deps_are_keys(1) [OF entry_ok.hyps(2) refl ep, of x]
      entry_ok.hyps(4) [OF entry_ok.prems(1)]
    by auto
qed simp_all

section \<open>Calls of the resolver\<close>

text \<open>
  In a run that returns, the resolver is called with a source file once for each of the
  specifiers in its import list, in their order, when the run visits the file, and not at
  all otherwise (the file of a loop has the specifiers that the loop still had to go through).
\<close>

lemma resolves_of_run:
  "visit R G f g tr res \<Longrightarrow> res = Inr g' \<Longrightarrow> f \<notin> set (getResolvedFiles g) \<Longrightarrow>
     resolves_of x tr = (if x \<in> set (visits tr) then imports_of G x else [])"
  "visit_imports R G f imps g tr res \<Longrightarrow> res = Inr g' \<Longrightarrow> f \<in> set (getResolvedFiles g) \<Longrightarrow>
     resolves_of x tr =
       (if x = f then imps else if x \<in> set (visits tr) then imports_of G x else [])"
proof (induct arbitrary: g' and g' rule: visit_visit_imports.inducts)
  case (extract_ok f imps g tr res)
  have "f \<notin> set (visits tr)"
    using visits_fresh(2) [OF extract_ok.hyps(2)]
    by (auto simp: getResolvedFiles_set_dependencies)
  then show ?case
    using extract_ok.hyps(3) [OF extract_ok.prems(1)] extract_ok.hyps(1)
    by (simp add: getResolvedFiles_set_dependencies imports_of_def)
next
  case (seen f i d g rest tr res)
  have "f \<notin> set (visits tr)"
    using visits_fresh(2) [OF seen.hyps(3)] seen.prems(2) by auto
  then show ?case
    using seen.hyps(4) [OF seen.prems(1)] seen.prems(2) by auto
next
  case (visit_ok f i d g tr1 g2 rest tr2 res)
  have d: "d \<notin> set (getResolvedFiles (dependencies_add f d g))"
    using visit_ok.hyps(2) by simp
  have keys: "getResolvedFiles g2 = getResolvedFiles g @ visits tr1"
    using keys_after(1) [OF visit_ok.hyps(3) refl d] by simp
  have f1: "f \<notin> set (visits tr1)"
    using visits_fresh(1) [OF visit_ok.hyps(3) d] visit_ok.prems(2) by auto
  have f2: "f \<notin> set (visits tr2)"
    using visits_fresh(2) [OF visit_ok.hyps(5)] keys visit_ok.prems(2) by auto
  have disj: "set (visits tr1) \<inter> set (visits tr2) = {}"
    using visits_fresh(2) [OF visit_ok.hyps(5)] keys by auto
  have r1: "resolves_of x tr1 = (if x \<in> set (visits tr1) then imports_of G x else [])"
    by (rule visit_ok.hyps(4) [OF refl d])
  have r2: "resolves_of x tr2 =
      (if x = f then rest else if x \<in> set (visits tr2) then imports_of G x else [])"
    using visit_ok.hyps(6) [OF visit_ok.prems(1)] keys visit_ok.prems(2) by simp
  show ?case
    using r1 r2 f1 f2 disj by (auto split: if_splits)
qed simp_all

lemma resolves_of_entries:
  "visit_entries R G eps g tr res \<Longrightarrow> res = Inr g' \<Longrightarrow>
     resolves_of x tr = (if x \<in> set (visits tr) then imports_of G x else [])"
proof (induct arbitrary: g' rule: visit_entries.induct)
  case (entry_ok g ep tr1 g2 rest tr2 res)
  have ep: "ep \<notin> set (getResolvedFiles g)"
    using entry_ok.hyps(1) by simp
  have "set (visits tr1) \<inter> set (visits tr2) = {}"
    using visits_fresh_entries [OF entry_ok.hyps(3)] keys_after(1) [OF entry_ok.hyps(2) refl ep]
    by auto
  then show ?case
    using resolves_of_run(1) [OF entry_ok.hyps(2) refl ep, of x]
      entry_ok.hyps(4) [OF entry_ok.prems(1)]
    by auto
qed simp_all

section \<open>Failing calls\<close>

text \<open>
  No call of a run that returns a graph has thrown; a run that ends with an exception has
  made calls, its last call threw that exception, and no call before it has thrown.
\<close>

lemma failures_run:
  "visit R G f g tr res \<Longrightarrow>
     (case res of
        Inr g' \<Rightarrow> failures R G tr = []
      | Inl e \<Rightarrow> tr \<noteq> [] \<and> failures R G (butlast tr) = []
                 \<and> call_error R G (call_of (last tr)) = Some e)"
  "visit_imports R G f imps g tr res \<Longrightarrow>
     (case res of
        Inr g' \<Rightarrow> failures R G tr = []
      | Inl e \<Rightarrow> tr \<noteq> [] \<and> failures R G (butlast tr) = []
                 \<and> call_error R G (call_of (last tr)) = Some e)"
proof (induct rule: visit_visit_imports.inducts)
  case (visit_ok f i d g tr1 g2 rest tr2 res)
  then show ?case by (auto simp: butlast_append split: sum.splits)
qed (auto split: sum.splits)

lemma failures_entries:
  "visit_entries R G eps g tr res \<Longrightarrow>
     (case res of
        Inr g' \<Rightarrow> failures R G tr = []
      | Inl e \<Rightarrow> tr \<noteq> [] \<and> failures R G (butlast tr) = []
                 \<and> call_error R G (call_of (last tr)) = Some e)"
proof (induct rule: visit_entries.induct)
  case (entry_fails g ep tr e rest)
  then show ?case using failures_run(1) [OF entry_fails.hyps(2)] by simp
next
  case (entry_ok g ep tr1 g2 rest tr2 res)
  then show ?case
    using failures_run(1) [OF entry_ok.hyps(2)]
    by (auto simp: butlast_append split: sum.splits)
qed (auto split: sum.splits)

section \<open>The map at the moment of each call\<close>

lemma keys_at_graph [simp]:
  "keys_at (Event c (dependenciesPerFile g)) = set (getResolvedFiles g)"
  by (simp add: keys_at_def getResolvedFiles_def)

text \<open>Every call of a run sees at least the keys the run started with.\<close>

lemma stores_lower:
  "visit R G f g tr res \<Longrightarrow> ev \<in> set tr \<Longrightarrow> set (getResolvedFiles g) \<subseteq> keys_at ev"
  "visit_imports R G f imps g tr res \<Longrightarrow> ev \<in> set tr \<Longrightarrow>
     set (getResolvedFiles g) \<subseteq> keys_at ev"
proof (induct rule: visit_visit_imports.inducts)
  case (extract_fails f e g)
  then show ?case by (auto simp: getResolvedFiles_set_dependencies)
next
  case (extract_ok f imps g tr res)
  then show ?case
    by (auto simp: getResolvedFiles_set_dependencies split: if_splits)
next
  case (resolve_fails f i e rest g)
  then show ?case by auto
next
  case (seen f i d g rest tr res)
  then show ?case by auto
next
  case (visit_fails f i d g tr e rest)
  then show ?case by auto
next
  case (visit_ok f i d g tr1 g2 rest tr2 res)
  have "getResolvedFiles g2 = getResolvedFiles g @ visits tr1"
    using keys_after(1) [OF visit_ok.hyps(3) refl] visit_ok.hyps(2) by simp
  then show ?case
    using visit_ok by auto
qed simp_all

lemma stores_lower_entries:
  "visit_entries R G eps g tr res \<Longrightarrow> ev \<in> set tr \<Longrightarrow>
     set (getResolvedFiles g) \<subseteq> keys_at ev"
proof (induct rule: visit_entries.induct)
  case (entry_fails g ep tr e rest)
  then show ?case using stores_lower(1) [OF entry_fails.hyps(2)] by simp
next
  case (entry_ok g ep tr1 g2 rest tr2 res)
  have "getResolvedFiles g2 = getResolvedFiles g @ visits tr1"
    using keys_after(1) [OF entry_ok.hyps(2) refl] entry_ok.hyps(1) by simp
  then show ?case
    using entry_ok stores_lower(1) [OF entry_ok.hyps(2)] by auto
qed simp_all

text \<open>Every call of a run that returns sees at most the keys the run ends with.\<close>

lemma stores_upper:
  "visit R G f g tr res \<Longrightarrow> res = Inr g' \<Longrightarrow> ev \<in> set tr \<Longrightarrow>
     f \<notin> set (getResolvedFiles g) \<Longrightarrow> keys_at ev \<subseteq> set (getResolvedFiles g')"
  "visit_imports R G f imps g tr res \<Longrightarrow> res = Inr g' \<Longrightarrow> ev \<in> set tr \<Longrightarrow>
     keys_at ev \<subseteq> set (getResolvedFiles g')"
proof (induct arbitrary: g' and g' rule: visit_visit_imports.inducts)
  case (extract_ok f imps g tr res)
  then show ?case
    using keys_after(2) [OF extract_ok.hyps(2) extract_ok.prems(1)] by auto
next
  case (seen f i d g rest tr res)
  then show ?case
    using keys_after(2) [OF seen.hyps(3) seen.prems(1)] by auto
next
  case (visit_ok f i d g tr1 g2 rest tr2 res)
  have d: "d \<notin> set (getResolvedFiles (dependencies_add f d g))"
    using visit_ok.hyps(2) by simp
  have k2: "getResolvedFiles g2 = getResolvedFiles g @ visits tr1"
    using keys_after(1) [OF visit_ok.hyps(3) refl d] by simp
  have k': "getResolvedFiles g' = getResolvedFiles g2 @ visits tr2"
    by (rule keys_after(2) [OF visit_ok.hyps(5) visit_ok.prems(1)])
  from visit_ok.prems(2) consider
    "ev = Event (ResolveImport f i) (dependenciesPerFile g)" | "ev \<in> set tr1" | "ev \<in> set tr2"
    by auto
  then show ?case
  proof cases
    case 1
    then show ?thesis using k2 k' by simp
  next
    case 2
    from visit_ok.hyps(4) [OF refl 2 d] show ?thesis using k' by auto
  next
    case 3
    then show ?thesis by (rule visit_ok.hyps(6) [OF visit_ok.prems(1)])
  qed
qed simp_all

lemma stores_upper_entries:
  "visit_entries R G eps g tr res \<Longrightarrow> res = Inr g' \<Longrightarrow> ev \<in> set tr \<Longrightarrow>
     keys_at ev \<subseteq> set (getResolvedFiles g')"
proof (induct arbitrary: g' rule: visit_entries.induct)
  case (entry_ok g ep tr1 g2 rest tr2 res)
  have ep: "ep \<notin> set (getResolvedFiles g)"
    using entry_ok.hyps(1) by simp
  have k': "getResolvedFiles g' = getResolvedFiles g2 @ visits tr2"
    by (rule keys_after_entries [OF entry_ok.hyps(3) entry_ok.prems(1)])
  from entry_ok.prems(2) consider "ev \<in> set tr1" | "ev \<in> set tr2"
    by auto
  then show ?case
  proof cases
    case 1
    from stores_upper(1) [OF entry_ok.hyps(2) refl 1 ep] show ?thesis using k' by auto
  next
    case 2
    then show ?thesis by (rule entry_ok.hyps(4) [OF entry_ok.prems(1)])
  qed
qed simp_all

text \<open>The keys only grow from one call to the next.\<close>

lemma keys_grow_simps [simp]:
  "keys_grow []"
  "keys_grow (ev # tr) \<longleftrightarrow> (\<forall>b\<in>set tr. keys_at ev \<subseteq> keys_at b) \<and> keys_grow tr"
  "keys_grow (tr @ tr') \<longleftrightarrow>
     keys_grow tr \<and> keys_grow tr' \<and> (\<forall>a\<in>set tr. \<forall>b\<in>set tr'. keys_at a \<subseteq> keys_at b)"
  by (auto simp: keys_grow_def sorted_wrt_append)

lemma stores_grow:
  "visit R G f g tr res \<Longrightarrow> f \<notin> set (getResolvedFiles g) \<Longrightarrow> keys_grow tr"
  "visit_imports R G f imps g tr res \<Longrightarrow> keys_grow tr"
proof (induct rule: visit_visit_imports.inducts)
  case (extract_ok f imps g tr res)
  then show ?case
    using stores_lower(2) [OF extract_ok.hyps(2)] by auto
next
  case (seen f i d g rest tr res)
  then show ?case
    using stores_lower(2) [OF seen.hyps(3)] by auto
next
  case (visit_fails f i d g tr e rest)
  then show ?case
    using stores_lower(1) [OF visit_fails.hyps(3)] by auto
next
  case (visit_ok f i d g tr1 g2 rest tr2 res)
  have d: "d \<notin> set (getResolvedFiles (dependencies_add f d g))"
    using visit_ok.hyps(2) by simp
  have k2: "getResolvedFiles g2 = getResolvedFiles g @ visits tr1"
    using keys_after(1) [OF visit_ok.hyps(3) refl d] by simp
  have "\<forall>a\<in>set tr1. \<forall>b\<in>set tr2. keys_at a \<subseteq> keys_at b"
    using stores_upper(1) [OF visit_ok.hyps(3) refl _ d] stores_lower(2) [OF visit_ok.hyps(5)]
    by blast
  moreover have "\<forall>b\<in>set tr1. set (getResolvedFiles g) \<subseteq> keys_at b"
    using stores_lower(1) [OF visit_ok.hyps(3)] by simp
  moreover have "\<forall>b\<in>set tr2. set (getResolvedFiles g) \<subseteq> keys_at b"
    using stores_lower(2) [OF visit_ok.hyps(5)] k2 by auto
  ultimately show ?case
    using visit_ok.hyps(4) [OF d] visit_ok.hyps(6) by (simp add: ball_Un)
qed simp_all

lemma stores_grow_entries:
  "visit_entries R G eps g tr res \<Longrightarrow> keys_grow tr"
proof (induct rule: visit_entries.induct)
  case (entry_fails g ep tr e rest)
  then show ?case using stores_grow(1) [OF entry_fails.hyps(2)] by simp
next
  case (entry_ok g ep tr1 g2 rest tr2 res)
  have ep: "ep \<notin> set (getResolvedFiles g)"
    using entry_ok.hyps(1) by simp
  have "\<forall>a\<in>set tr1. \<forall>b\<in>set tr2. keys_at a \<subseteq> keys_at b"
    using stores_upper(1) [OF entry_ok.hyps(2) refl _ ep] stores_lower_entries [OF entry_ok.hyps(3)]
    by blast
  then show ?case
    using stores_grow(1) [OF entry_ok.hyps(2) ep] entry_ok.hyps(4) by simp
qed simp_all

text \<open>
  At the moment of a call, the file it works on is a key; at the moment the extractor is
  called on a file, the set stored for the file is empty.
\<close>

lemma subject_is_key:
  "visit R G f g tr res \<Longrightarrow> ev \<in> set tr \<Longrightarrow> f \<notin> set (getResolvedFiles g) \<Longrightarrow>
     subject (call_of ev) \<in> keys_at ev"
  "visit_imports R G f imps g tr res \<Longrightarrow> ev \<in> set tr \<Longrightarrow> f \<in> set (getResolvedFiles g) \<Longrightarrow>
     subject (call_of ev) \<in> keys_at ev"
proof (induct rule: visit_visit_imports.inducts)
  case (extract_fails f e g)
  then show ?case by (auto simp: getResolvedFiles_set_dependencies)
next
  case (extract_ok f imps g tr res)
  then show ?case by (auto simp: getResolvedFiles_set_dependencies)
next
  case (visit_ok f i d g tr1 g2 rest tr2 res)
  have "getResolvedFiles g2 = getResolvedFiles g @ visits tr1"
    using keys_after(1) [OF visit_ok.hyps(3) refl] visit_ok.hyps(2) by simp
  then show ?case using visit_ok by auto
qed auto

lemma subject_is_key_entries:
  "visit_entries R G eps g tr res \<Longrightarrow> ev \<in> set tr \<Longrightarrow> subject (call_of ev) \<in> keys_at ev"
proof (induct rule: visit_entries.induct)
  case (entry_fails g ep tr e rest)
  then show ?case using subject_is_key(1) [OF entry_fails.hyps(2)] by simp
next
  case (entry_ok g ep tr1 g2 rest tr2 res)
  then show ?case using subject_is_key(1) [OF entry_ok.hyps(2)] by auto
qed simp_all

lemma empty_at_extract:
  "visit R G f g tr res \<Longrightarrow> ev \<in> set tr \<Longrightarrow> call_of ev = GetImports x \<Longrightarrow>
     Map_get (store_at ev) x = Some []"
  "visit_imports R G f imps g tr res \<Longrightarrow> ev \<in> set tr \<Longrightarrow> call_of ev = GetImports x \<Longrightarrow>
     Map_get (store_at ev) x = Some []"
  by (induct rule: visit_visit_imports.inducts)
     (auto simp: set_dependencies_def Map_get_Map_set)

lemma empty_at_extract_entries:
  "visit_entries R G eps g tr res \<Longrightarrow> ev \<in> set tr \<Longrightarrow> call_of ev = GetImports x \<Longrightarrow>
     Map_get (store_at ev) x = Some []"
  by (induct rule: visit_entries.induct) (auto dest: empty_at_extract(1))

section \<open>The depth bound\<close>

text \<open>A run that returns within some depth returns the same within any greater depth.\<close>

lemma depth_mono:
  "addDependenciesFrom n R G f g = Some r \<Longrightarrow> n \<le> m \<Longrightarrow> addDependenciesFrom m R G f g = Some r"
  "addDependenciesFrom_loop n R G f imps g = Some r \<Longrightarrow> n \<le> m \<Longrightarrow>
     addDependenciesFrom_loop m R G f imps g = Some r"
proof (induction n R G f g and n R G f imps g arbitrary: r m and r m
       rule: addDependenciesFrom_addDependenciesFrom_loop.induct)
  case (1 R G f g)
  then show ?case by simp
next
  case (2 n R G f g)
  from "2.prems"(2) obtain m' where m: "m = Suc m'" and le: "n \<le> m'"
    by (cases m) auto
  show ?case
  proof (cases "G f")
    case (Inl e)
    with "2.prems"(1) show ?thesis unfolding m by (simp add: Let_def)
  next
    case (Inr imps)
    with "2.prems"(1) obtain r' where
      l: "addDependenciesFrom_loop n R G f imps (set_dependencies f g) = Some r'"
      by (cases "addDependenciesFrom_loop n R G f imps (set_dependencies f g)")
         (auto simp: Let_def logged_def)
    from "2.IH" [OF refl Inr l le] "2.prems"(1) l Inr show ?thesis
      unfolding m by (simp add: Let_def)
  qed
next
  case (3 n R G f g)
  then show ?case by simp
next
  case (4 n R G f imp rest g)
  obtain tr res where r: "r = (tr, res)" by (cases r)
  from "4.prems"(1) [unfolded r] show ?case
  proof (cases rule: addDependenciesFrom_loop_ConsE)
    case (resolve_fails e)
    then show ?thesis unfolding r by (simp add: logged_def)
  next
    case (seen d tr')
    from "4.IH"(3) [OF seen(1) refl _ seen(4) "4.prems"(2)] seen(1,2,3) show ?thesis
      unfolding r by (simp add: Let_def logged_def)
  next
    case (visit_fails d tr' e)
    from "4.IH"(1) [OF visit_fails(1) refl _ visit_fails(4) "4.prems"(2)] visit_fails(1,2,3,5)
    show ?thesis unfolding r by (simp add: Let_def logged_def)
  next
    case (visit_ok d tr1 g2 tr2)
    from "4.IH"(1) [OF visit_ok(1) refl _ visit_ok(4) "4.prems"(2)] visit_ok(2)
    have v: "addDependenciesFrom m R G d (dependencies_add f d g) = Some (tr1, Inr g2)"
      by simp
    from "4.IH"(2) [OF visit_ok(1) refl _ visit_ok(4) refl refl visit_ok(5) "4.prems"(2)]
      visit_ok(2)
    have l: "addDependenciesFrom_loop m R G f rest g2 = Some (tr2, res)"
      by simp
    from v l visit_ok(1,2,3) show ?thesis
      unfolding r by (simp add: Let_def logged_def)
  qed
qed

lemma depth_mono_entries:
  "createFromMultipleEntryPoints_loop n R G eps g = Some r \<Longrightarrow> n \<le> m \<Longrightarrow>
     createFromMultipleEntryPoints_loop m R G eps g = Some r"
proof (induction eps arbitrary: g r)
  case Nil
  then show ?case by simp
next
  case (Cons ep eps)
  show ?case
  proof (cases "Map_has (dependenciesPerFile g) ep")
    case True
    with Cons show ?thesis by simp
  next
    case False
    with Cons.prems(1) obtain tr1 r1 where
      v: "addDependenciesFrom n R G ep g = Some (tr1, r1)"
      by (auto split: option.splits)
    note v' = depth_mono(1) [OF v Cons.prems(2)]
    show ?thesis
    proof (cases r1)
      case (Inl e)
      with v v' False Cons.prems(1) show ?thesis by auto
    next
      case (Inr g2)
      with v False Cons.prems(1) obtain r2 where
        l: "createFromMultipleEntryPoints_loop n R G eps g2 = Some r2"
        by (auto split: option.splits)
      from Cons.IH [OF l Cons.prems(2)] l v v' Inr False Cons.prems(1)
      show ?thesis by (auto split: prod.splits)
    qed
  qed
qed

lemma createFromMultipleEntryPoints_depth_mono:
  "createFromMultipleEntryPoints n R G eps = Some r \<Longrightarrow> n \<le> m \<Longrightarrow>
     createFromMultipleEntryPoints m R G eps = Some r"
  unfolding createFromMultipleEntryPoints_def by (rule depth_mono_entries)

lemma createFromMultipleEntryPoints_deterministic:
  assumes "createFromMultipleEntryPoints n R G eps = Some r"
    and "createFromMultipleEntryPoints m R G eps = Some r'"
  shows "r = r'"
proof -
  have "createFromMultipleEntryPoints (max n m) R G eps = Some r"
    by (rule createFromMultipleEntryPoints_depth_mono [OF assms(1)]) simp
  moreover have "createFromMultipleEntryPoints (max n m) R G eps = Some r'"
    by (rule createFromMultipleEntryPoints_depth_mono [OF assms(2)]) simp
  ultimately show ?thesis by simp
qed

text \<open>Every run of the relation is a run of the functions at some depth.\<close>

lemma visit_addDependenciesFrom:
  "visit R G f g tr res \<Longrightarrow> \<exists>n. addDependenciesFrom n R G f g = Some (tr, res)"
  "visit_imports R G f imps g tr res \<Longrightarrow>
     \<exists>n. addDependenciesFrom_loop n R G f imps g = Some (tr, res)"
proof (induct rule: visit_visit_imports.inducts)
  case (extract_fails f e g)
  have "addDependenciesFrom (Suc 0) R G f g =
      Some ([Event (GetImports f) (dependenciesPerFile (set_dependencies f g))], Inl e)"
    using extract_fails by (simp add: Let_def logged_def)
  then show ?case ..
next
  case (extract_ok f imps g tr res)
  then obtain n where "addDependenciesFrom_loop n R G f imps (set_dependencies f g) = Some (tr, res)"
    by blast
  with extract_ok.hyps(1) have "addDependenciesFrom (Suc n) R G f g =
      Some (Event (GetImports f) (dependenciesPerFile (set_dependencies f g)) # tr, res)"
    by (simp add: Let_def logged_def)
  then show ?case ..
next
  case (loop_done f g)
  have "addDependenciesFrom_loop 0 R G f [] g = Some ([], Inr g)" by simp
  then show ?case ..
next
  case (resolve_fails f i e rest g)
  then have "addDependenciesFrom_loop 0 R G f (i # rest) g =
      Some ([Event (ResolveImport f i) (dependenciesPerFile g)], Inl e)"
    by (simp add: logged_def)
  then show ?case ..
next
  case (seen f i d g rest tr res)
  then obtain n where "addDependenciesFrom_loop n R G f rest (dependencies_add f d g) = Some (tr, res)"
    by blast
  with seen.hyps(1,2) have "addDependenciesFrom_loop n R G f (i # rest) g =
      Some (Event (ResolveImport f i) (dependenciesPerFile g) # tr, res)"
    by (simp add: Let_def logged_def)
  then show ?case ..
next
  case (visit_fails f i d g tr e rest)
  then obtain n where "addDependenciesFrom n R G d (dependencies_add f d g) = Some (tr, Inl e)"
    by blast
  with visit_fails.hyps(1,2) have "addDependenciesFrom_loop n R G f (i # rest) g =
      Some (Event (ResolveImport f i) (dependenciesPerFile g) # tr, Inl e)"
    by (simp add: Let_def logged_def)
  then show ?case ..
next
  case (visit_ok f i d g tr1 g2 rest tr2 res)
  from visit_ok.hyps(4) obtain n1 where
    "addDependenciesFrom n1 R G d (dependencies_add f d g) = Some (tr1, Inr g2)" ..
  then have v: "addDependenciesFrom (max n1 n2) R G d (dependencies_add f d g) = Some (tr1, Inr g2)"
    for n2 by (rule depth_mono(1)) simp
  from visit_ok.hyps(6) obtain n2 where
    "addDependenciesFrom_loop n2 R G f rest g2 = Some (tr2, res)" ..
  then have l: "addDependenciesFrom_loop (max n1 n2) R G f rest g2 = Some (tr2, res)"
    by (rule depth_mono(2)) simp
  from v [of n2] l visit_ok.hyps(1,2)
  have "addDependenciesFrom_loop (max n1 n2) R G f (i # rest) g =
      Some (Event (ResolveImport f i) (dependenciesPerFile g) # tr1 @ tr2, res)"
    by (simp add: Let_def logged_def)
  then show ?case ..
qed

lemma visit_entries_createFromMultipleEntryPoints_loop:
  "visit_entries R G eps g tr res \<Longrightarrow>
     \<exists>n. createFromMultipleEntryPoints_loop n R G eps g = Some (tr, res)"
proof (induct rule: visit_entries.induct)
  case (entries_done g)
  have "createFromMultipleEntryPoints_loop 0 R G [] g = Some ([], Inr g)" by simp
  then show ?case ..
next
  case (entry_seen g ep rest tr res)
  then obtain n where "createFromMultipleEntryPoints_loop n R G rest g = Some (tr, res)"
    by blast
  with entry_seen.hyps(1) have
    "createFromMultipleEntryPoints_loop n R G (ep # rest) g = Some (tr, res)"
    by simp
  then show ?case ..
next
  case (entry_fails g ep tr e rest)
  from visit_addDependenciesFrom(1) [OF entry_fails.hyps(2)] obtain n where
    "addDependenciesFrom n R G ep g = Some (tr, Inl e)" ..
  with entry_fails.hyps(1) have
    "createFromMultipleEntryPoints_loop n R G (ep # rest) g = Some (tr, Inl e)"
    by simp
  then show ?case ..
next
  case (entry_ok g ep tr1 g2 rest tr2 res)
  from visit_addDependenciesFrom(1) [OF entry_ok.hyps(2)] obtain n1 where
    "addDependenciesFrom n1 R G ep g = Some (tr1, Inr g2)" ..
  then have v: "addDependenciesFrom (max n1 n2) R G ep g = Some (tr1, Inr g2)" for n2
    by (rule depth_mono(1)) simp
  from entry_ok.hyps(4) obtain n2 where
    "createFromMultipleEntryPoints_loop n2 R G rest g2 = Some (tr2, res)" ..
  then have "createFromMultipleEntryPoints_loop (max n1 n2) R G rest g2 = Some (tr2, res)"
    by (rule depth_mono_entries) simp
  with v [of n2] entry_ok.hyps(1) have
    "createFromMultipleEntryPoints_loop (max n1 n2) R G (ep # rest) g = Some (tr1 @ tr2, res)"
    by simp
  then show ?case ..
qed

section \<open>Termination\<close>

text \<open>
  Let \<open>S\<close> be a finite set of files that holds the direct imports of each of its files.
  A visit of a file of \<open>S\<close> that is not yet a key returns within a depth of as many
  nested calls as there are files of \<open>S\<close> that are not yet keys: each nested call makes
  one more of them a key.
\<close>

lemma set_dependencies_key [simp]: "f \<in> set (getResolvedFiles (set_dependencies f g))"
  by (simp add: getResolvedFiles_set_dependencies)

lemma returns_within:
  "f \<in> S \<Longrightarrow> f \<notin> set (getResolvedFiles g) \<Longrightarrow> card (S - set (getResolvedFiles g)) \<le> n \<Longrightarrow>
     finite S \<Longrightarrow> \<forall>x\<in>S. direct_imports R G x \<subseteq> S \<Longrightarrow>
     \<exists>r. addDependenciesFrom n R G f g = Some r"
  "f \<in> S \<Longrightarrow> f \<in> set (getResolvedFiles g) \<Longrightarrow> set (resolutions R f imps) \<subseteq> S \<Longrightarrow>
     card (S - set (getResolvedFiles g)) \<le> n \<Longrightarrow>
     finite S \<Longrightarrow> \<forall>x\<in>S. direct_imports R G x \<subseteq> S \<Longrightarrow>
     \<exists>r. addDependenciesFrom_loop n R G f imps g = Some r"
proof (induction n R G f g and n R G f imps g
       rule: addDependenciesFrom_addDependenciesFrom_loop.induct)
  case (1 R G f g)
  from "1.prems"(1,2,4) have "card (S - set (getResolvedFiles g)) > 0"
    by (auto simp: card_gt_0_iff)
  with "1.prems"(3) show ?case by simp
next
  case (2 n R G f g)
  show ?case
  proof (cases "G f")
    case (Inl e)
    then show ?thesis by (simp add: Let_def logged_def)
  next
    case (Inr imps)
    have "S - set (getResolvedFiles (set_dependencies f g)) = (S - set (getResolvedFiles g)) - {f}"
      using "2.prems"(2) by (auto simp: getResolvedFiles_set_dependencies)
    moreover have "card ((S - set (getResolvedFiles g)) - {f}) < card (S - set (getResolvedFiles g))"
      using "2.prems"(1,2) "2.prems"(4) by (intro card_Diff1_less) auto
    ultimately have c: "card (S - set (getResolvedFiles (set_dependencies f g))) \<le> n"
      using "2.prems"(3) by simp
    have "direct_imports R G f = set (resolutions R f imps)"
      using Inr by (simp add: direct_imports_def imports_of_def)
    then have "set (resolutions R f imps) \<subseteq> S"
      using "2.prems"(5) "2.prems"(1) by blast
    from "2.IH" [OF refl Inr "2.prems"(1) set_dependencies_key this c "2.prems"(4,5)]
    obtain r where "addDependenciesFrom_loop n R G f imps (set_dependencies f g) = Some r"
      by auto
    with Inr show ?thesis by (cases r) (simp add: Let_def logged_def)
  qed
next
  case (3 n R G f g)
  then show ?case by simp
next
  case (4 n R G f imp rest g)
  show ?case
  proof (cases "R f imp")
    case (Inl e)
    then show ?thesis by (simp add: logged_def)
  next
    case (Inr d)
    let ?g1 = "dependencies_add f d g"
    from Inr "4.prems"(3) have d: "d \<in> S" and rest: "set (resolutions R f rest) \<subseteq> S"
      by auto
    show ?thesis
    proof (cases "d \<in> set (getResolvedFiles ?g1)")
      case True
      from "4.IH"(3) [OF Inr refl _ "4.prems"(1) _ rest _ "4.prems"(5,6)] True "4.prems"(2,4)
      obtain r where "addDependenciesFrom_loop n R G f rest ?g1 = Some r"
        by auto
      with Inr True show ?thesis by (cases r) (simp add: Let_def logged_def)
    next
      case False
      from "4.IH"(1) [OF Inr refl _ d _ _ "4.prems"(5,6)] False "4.prems"(4)
      obtain tr1 r1 where v: "addDependenciesFrom n R G d ?g1 = Some (tr1, r1)"
        by auto
      show ?thesis
      proof (cases r1)
        case (Inl e)
        with v Inr False show ?thesis by (simp add: Let_def logged_def)
      next
        case r1: (Inr g2)
        have k2: "getResolvedFiles g2 = getResolvedFiles g @ visits tr1"
          using keys_after(1) [OF addDependenciesFrom_visit(1) [OF v [unfolded r1]] refl] False
          by simp
        then have "S - set (getResolvedFiles g2) \<subseteq> S - set (getResolvedFiles g)"
          by auto
        then have "card (S - set (getResolvedFiles g2)) \<le> card (S - set (getResolvedFiles g))"
          using "4.prems"(5) by (intro card_mono) auto
        with "4.prems"(4) have c: "card (S - set (getResolvedFiles g2)) \<le> n"
          by simp
        from "4.IH"(2) [OF Inr refl _ v [unfolded r1] refl refl "4.prems"(1) _ rest c "4.prems"(5,6)]
          False k2 "4.prems"(2)
        obtain r where "addDependenciesFrom_loop n R G f rest g2 = Some r"
          by auto
        with v r1 Inr False show ?thesis by (cases r) (simp add: Let_def logged_def)
      qed
    qed
  qed
qed

lemma returns_within_entries:
  "set eps \<subseteq> S \<Longrightarrow> card (S - set (getResolvedFiles g)) \<le> n \<Longrightarrow>
     finite S \<Longrightarrow> \<forall>x\<in>S. direct_imports R G x \<subseteq> S \<Longrightarrow>
     \<exists>r. createFromMultipleEntryPoints_loop n R G eps g = Some r"
proof (induction eps arbitrary: g)
  case Nil
  then show ?case by simp
next
  case (Cons ep eps)
  show ?case
  proof (cases "ep \<in> set (getResolvedFiles g)")
    case True
    with Cons show ?thesis by simp
  next
    case False
    from returns_within(1) [OF _ False Cons.prems(2,3,4)] Cons.prems(1)
    obtain tr1 r1 where v: "addDependenciesFrom n R G ep g = Some (tr1, r1)"
      by auto
    show ?thesis
    proof (cases r1)
      case (Inl e)
      with v False show ?thesis by simp
    next
      case (Inr g2)
      have "getResolvedFiles g2 = getResolvedFiles g @ visits tr1"
        by (rule keys_after(1) [OF addDependenciesFrom_visit(1) [OF v [unfolded Inr]] refl False])
      then have "S - set (getResolvedFiles g2) \<subseteq> S - set (getResolvedFiles g)"
        by auto
      then have "card (S - set (getResolvedFiles g2)) \<le> card (S - set (getResolvedFiles g))"
        using Cons.prems(3) by (intro card_mono) auto
      with Cons.prems(2) have "card (S - set (getResolvedFiles g2)) \<le> n"
        by simp
      from Cons.IH [OF _ this Cons.prems(3,4)] Cons.prems(1)
      obtain r where "createFromMultipleEntryPoints_loop n R G eps g2 = Some r"
        by auto
      with v Inr False show ?thesis by (cases r) simp
    qed
  qed
qed

lemma createFromMultipleEntryPoints_returns:
  assumes "finite S" and "set eps \<subseteq> S" and "\<forall>x\<in>S. direct_imports R G x \<subseteq> S"
  shows "\<exists>r. createFromMultipleEntryPoints (card S) R G eps = Some r"
  unfolding createFromMultipleEntryPoints_def
  by (rule returns_within_entries [OF assms(2) _ assms(1,3)]) simp

section \<open>The calls stay within a closed set of files\<close>

lemma resolutions_member:
  "d \<in> set (resolutions R f imps) \<longleftrightarrow> (\<exists>i\<in>set imps. R f i = Inr d)"
  by (induction imps) (auto split: sum.splits)

lemma direct_imports_member:
  "d \<in> direct_imports R G f \<longleftrightarrow> (\<exists>i\<in>set (imports_of G f). R f i = Inr d)"
  by (simp add: direct_imports_def resolutions_member)

text \<open>
  When the run starts in a set of files that holds the direct imports of each of its
  files, every call is about a file of the set, and every specifier handed to the resolver
  is one of the import list of the source file.
\<close>

lemma calls_within:
  "visit R G f g tr res \<Longrightarrow> f \<in> S \<Longrightarrow> \<forall>x\<in>S. direct_imports R G x \<subseteq> S \<Longrightarrow> ev \<in> set tr \<Longrightarrow>
     subject (call_of ev) \<in> S \<and>
     (\<forall>x i. call_of ev = ResolveImport x i \<longrightarrow> i \<in> set (imports_of G x))"
  "visit_imports R G f imps g tr res \<Longrightarrow> f \<in> S \<Longrightarrow> \<forall>x\<in>S. direct_imports R G x \<subseteq> S \<Longrightarrow>
     ev \<in> set tr \<Longrightarrow> set imps \<subseteq> set (imports_of G f) \<Longrightarrow>
     subject (call_of ev) \<in> S \<and>
     (\<forall>x i. call_of ev = ResolveImport x i \<longrightarrow> i \<in> set (imports_of G x))"
proof (induct rule: visit_visit_imports.inducts)
  case (extract_ok f imps g tr res)
  then show ?case by (auto simp: imports_of_def)
next
  case (visit_fails f i d g tr e rest)
  have "d \<in> direct_imports R G f"
    using visit_fails.hyps(1) visit_fails.prems(4) by (auto simp: direct_imports_member)
  then have "d \<in> S"
    using visit_fails.prems(1,2) by blast
  with visit_fails show ?case by auto
next
  case (visit_ok f i d g tr1 g2 rest tr2 res)
  have "d \<in> direct_imports R G f"
    using visit_ok.hyps(1) visit_ok.prems(4) by (auto simp: direct_imports_member)
  then have "d \<in> S"
    using visit_ok.prems(1,2) by blast
  with visit_ok show ?case by auto
qed auto

lemma calls_within_entries:
  "visit_entries R G eps g tr res \<Longrightarrow> set eps \<subseteq> S \<Longrightarrow>
     \<forall>x\<in>S. direct_imports R G x \<subseteq> S \<Longrightarrow> ev \<in> set tr \<Longrightarrow>
     subject (call_of ev) \<in> S \<and>
     (\<forall>x i. call_of ev = ResolveImport x i \<longrightarrow> i \<in> set (imports_of G x))"
proof (induct rule: visit_entries.induct)
  case (entry_fails g ep tr e rest)
  then show ?case using calls_within(1) [OF entry_fails.hyps(2), of S ev] by simp
next
  case (entry_ok g ep tr1 g2 rest tr2 res)
  then show ?case using calls_within(1) [OF entry_ok.hyps(2), of S ev] by auto
qed simp_all

text \<open>
  If moreover extraction succeeds on every file of the set and every specifier of its
  import list resolves, the build returns a graph.
\<close>

lemma createFromMultipleEntryPoints_succeeds:
  assumes fin: "finite S" and eps: "set eps \<subseteq> S"
    and ok: "\<forall>x\<in>S. \<exists>imps. G x = Inr imps \<and> (\<forall>i\<in>set imps. \<exists>d\<in>S. R x i = Inr d)"
  shows "\<exists>tr g. createFromMultipleEntryPoints (card S) R G eps = Some (tr, Inr g)"
proof -
  have closed: "\<forall>x\<in>S. direct_imports R G x \<subseteq> S"
  proof (intro ballI subsetI)
    fix x d assume x: "x \<in> S" and d: "d \<in> direct_imports R G x"
    from ok x obtain imps where "G x = Inr imps" "\<forall>i\<in>set imps. \<exists>d\<in>S. R x i = Inr d"
      by blast
    with d show "d \<in> S" by (auto simp: direct_imports_member imports_of_def)
  qed
  from createFromMultipleEntryPoints_returns [OF fin eps closed]
  obtain tr res where run: "createFromMultipleEntryPoints (card S) R G eps = Some (tr, res)"
    by auto
  have "\<exists>g. res = Inr g"
  proof (cases res)
    case (Inl e)
    note rel = createFromMultipleEntryPoints_visit_entries [OF run]
    from failures_entries [OF rel] Inl
    have ne: "tr \<noteq> []" and err: "call_error R G (call_of (last tr)) = Some e"
      by simp_all
    from ne have "last tr \<in> set tr" by simp
    from calls_within_entries [OF rel eps closed this]
    have s: "subject (call_of (last tr)) \<in> S"
      and i: "\<forall>x i. call_of (last tr) = ResolveImport x i \<longrightarrow> i \<in> set (imports_of G x)"
      by simp_all
    have "call_error R G (call_of (last tr)) = None"
    proof (cases "call_of (last tr)")
      case (GetImports x)
      with s ok show ?thesis by auto
    next
      case (ResolveImport x j)
      with s i have "x \<in> S" "j \<in> set (imports_of G x)" by simp_all
      with ok have "\<exists>d. R x j = Inr d" by (fastforce simp: imports_of_def)
      with ResolveImport show ?thesis by auto
    qed
    with err show ?thesis by simp
  qed simp
  with run show ?thesis by auto
qed

section \<open>The example builds\<close>

lemma chain_build:
  "createFromMultipleEntryPoints 2 example_resolver chain_imports [FileA] =
     Some (chain_calls, Inr chain_graph)"
  by code_simp

lemma cycle_build:
  "createFromMultipleEntryPoints 2 example_resolver cycle_imports [FileA] =
     Some (cycle_calls, Inr cycle_graph)"
  by code_simp

lemma diamond_build:
  "createFromMultipleEntryPoints 2 example_resolver diamond_imports [FileA, FileB] =
     Some (diamond_calls, Inr diamond_graph)"
  by code_simp

lemma broken_build:
  "createFromMultipleEntryPoints 1 example_resolver broken_imports [FileA] =
     Some (broken_calls, Inl (ResolutionError FileA ''./missing''))"
  by code_simp

lemma fork_build:
  "createFromMultipleEntryPoints 2 example_resolver fork_imports [FileA, FileB] =
     Some (fork_calls, Inr fork_graph)"
  by code_simp

lemma fork_rev_build:
  "createFromMultipleEntryPoints 4 example_resolver fork_imports_rev [FileB, FileA] =
     Some (fork_rev_calls, Inr fork_rev_graph)"
  by code_simp

text \<open>
  On the numbered files, a visit of a file other than \<open>0\<close> that is greater than every
  key does not return at any depth, and so the build from the file \<open>0\<close> does not either.
\<close>

lemma looping_never_returns:
  "0 < k \<Longrightarrow> \<forall>x\<in>set (getResolvedFiles g). x < k \<Longrightarrow>
     addDependenciesFrom n looping_resolver looping_imports k g = None"
proof (induction n arbitrary: k g)
  case 0
  then show ?case by simp
next
  case (Suc n)
  let ?g1 = "dependencies_add k (Suc k) (set_dependencies k g)"
  have keys: "\<forall>x\<in>set (getResolvedFiles ?g1). x < Suc k"
    using Suc.prems(2) by (auto simp: getResolvedFiles_set_dependencies split: if_splits)
  from Suc.IH [OF _ keys]
  have "addDependenciesFrom n looping_resolver looping_imports (Suc k) ?g1 = None"
    by simp
  moreover have "Suc k \<notin> set (getResolvedFiles ?g1)"
    using keys by auto
  moreover have "looping_imports k = Inr [True]" "looping_resolver k True = Inr (Suc k)"
    using Suc.prems(1) by (simp_all add: looping_imports_def looping_resolver_def)
  ultimately show ?case
    by (simp add: Let_def logged_def)
qed

lemma looping_build_never_returns:
  "createFromEntryPoint n looping_resolver looping_imports 0 = None"
proof (cases n)
  case 0
  then show ?thesis
    by (simp add: createFromEntryPoint_def createFromMultipleEntryPoints_def)
next
  case (Suc m)
  let ?g0 = "set_dependencies 0 (constructor [0::nat])"
  let ?g1 = "dependencies_add 0 0 ?g0"
  let ?g2 = "dependencies_add 0 (Suc 0) ?g1"
  have keys: "getResolvedFiles ?g2 = [0]"
    by (simp add: getResolvedFiles_set_dependencies)
  then have "addDependenciesFrom m looping_resolver looping_imports (Suc 0) ?g2 = None"
    by (intro looping_never_returns) simp_all
  moreover have "looping_imports 0 = Inr [False, True]" "looping_resolver 0 False = Inr 0"
    "looping_resolver 0 True = Inr (Suc 0)"
    by (simp_all add: looping_imports_def looping_resolver_def)
  ultimately show ?thesis
    unfolding Suc
    by (simp add: createFromEntryPoint_def createFromMultipleEntryPoints_def Let_def logged_def
        getResolvedFiles_set_dependencies)
qed

section \<open>Admission order\<close>

lemma Map_keys_dependenciesPerFile: "Map_keys (dependenciesPerFile g) = getResolvedFiles g"
  by (simp add: getResolvedFiles_def)

lemma admission_log_append:
  "admission_log ks (tr @ tr') \<longleftrightarrow> admission_log ks tr \<and> admission_log (ks @ visits tr) tr'"
  by (induction ks tr rule: admission_log.induct) auto

lemma admission_run:
  "visit R G f g tr res \<Longrightarrow> f \<notin> set (getResolvedFiles g) \<Longrightarrow>
     admission_log (getResolvedFiles g) tr"
  "visit_imports R G f imps g tr res \<Longrightarrow> admission_log (getResolvedFiles g) tr"
proof (induct rule: visit_visit_imports.inducts)
  case (extract_fails f e g)
  then show ?case
    by (simp add: Map_keys_dependenciesPerFile getResolvedFiles_set_dependencies)
next
  case (extract_ok f imps g tr res)
  then show ?case
    by (simp add: Map_keys_dependenciesPerFile getResolvedFiles_set_dependencies)
next
  case (visit_ok f i d g tr1 g2 rest tr2 res)
  have "getResolvedFiles g2 = getResolvedFiles g @ visits tr1"
    using keys_after(1) [OF visit_ok.hyps(3) refl] visit_ok.hyps(2) by simp
  with visit_ok show ?case
    by (simp add: Map_keys_dependenciesPerFile admission_log_append)
qed (simp_all add: Map_keys_dependenciesPerFile)

lemma admission_entries:
  "visit_entries R G eps g tr res \<Longrightarrow> admission_log (getResolvedFiles g) tr"
proof (induct rule: visit_entries.induct)
  case (entry_fails g ep tr e rest)
  then show ?case by (simp add: admission_run(1))
next
  case (entry_ok g ep tr1 g2 rest tr2 res)
  have "getResolvedFiles g2 = getResolvedFiles g @ visits tr1"
    using keys_after(1) [OF entry_ok.hyps(2) refl] entry_ok.hyps(1) by simp
  with entry_ok show ?case
    by (simp add: admission_log_append admission_run(1))
qed simp_all

section \<open>The graph of a build that returns\<close>

lemma entries_are_keys:
  "visit_entries R G eps g tr res \<Longrightarrow> res = Inr g' \<Longrightarrow> set eps \<subseteq> set (getResolvedFiles g')"
proof (induct arbitrary: g' rule: visit_entries.induct)
  case (entry_seen g ep rest tr res)
  then show ?case
    using keys_after_entries [OF entry_seen.hyps(2) entry_seen.prems] by auto
next
  case (entry_ok g ep tr1 g2 rest tr2 res)
  have "ep \<in> set (getResolvedFiles g2)"
    using keys_after(1) [OF entry_ok.hyps(2) refl] entry_ok.hyps(1)
      visit_visits [OF entry_ok.hyps(2)] by simp
  then show ?case
    using keys_after_entries [OF entry_ok.hyps(3) entry_ok.prems] entry_ok.hyps(4) [OF entry_ok.prems]
    by auto
qed simp_all

lemma visits_are_calls:
  "x \<in> set (visits tr) \<Longrightarrow> \<exists>ev\<in>set tr. call_of ev = GetImports x"
  by (induction tr rule: visits.induct) auto

lemma deps_of_constructor [simp]: "deps_of (dependenciesPerFile (constructor eps)) x = {}"
  by (simp add: deps_of_def constructor_def Map_get_def)

lemma stored_set_of_key:
  "f \<in> set (getResolvedFiles g) \<Longrightarrow>
     \<exists>deps. Map_get (dependenciesPerFile g) f = Some deps \<and>
       set deps = deps_of (dependenciesPerFile g) f"
  using Map_get_eq_None [of "dependenciesPerFile g" f]
  by (auto simp: deps_of_def getResolvedFiles_def)

lemma build_keys:
  assumes "createFromMultipleEntryPoints n R G eps = Some (tr, Inr g)"
  shows "getResolvedFiles g = visits tr"
  using keys_after_entries [OF createFromMultipleEntryPoints_visit_entries [OF assms] refl]
  by simp

lemma build_distinct:
  assumes "createFromMultipleEntryPoints n R G eps = Some (tr, res)"
  shows "distinct (visits tr)"
  by (rule visits_distinct_entries [OF createFromMultipleEntryPoints_visit_entries [OF assms]])

lemma build_deps:
  assumes "createFromMultipleEntryPoints n R G eps = Some (tr, Inr g)"
    and "f \<in> set (getResolvedFiles g)"
  shows "deps_of (dependenciesPerFile g) f = direct_imports R G f"
  using visited_deps_entries [OF createFromMultipleEntryPoints_visit_entries [OF assms(1)] refl]
    assms(2) build_keys [OF assms(1)]
  by simp

lemma build_closed:
  assumes "createFromMultipleEntryPoints n R G eps = Some (tr, Inr g)"
    and "f \<in> set (getResolvedFiles g)"
  shows "direct_imports R G f \<subseteq> set (getResolvedFiles g)"
  using added_deps_are_keys_entries
      [OF createFromMultipleEntryPoints_visit_entries [OF assms(1)] refl, of f]
    build_deps [OF assms]
  by simp

lemma build_entries:
  assumes "createFromMultipleEntryPoints n R G eps = Some (tr, Inr g)"
  shows "set eps \<subseteq> set (getResolvedFiles g)"
  by (rule entries_are_keys [OF createFromMultipleEntryPoints_visit_entries [OF assms] refl])

lemma reachable_closed: "\<forall>x\<in>reachable R G eps. direct_imports R G x \<subseteq> reachable R G eps"
  unfolding reachable_def import_rel_def
  by (auto intro: rtrancl_into_rtrancl)

lemma entries_reachable: "set eps \<subseteq> reachable R G eps"
  unfolding reachable_def by auto

lemma reachable_least:
  assumes "set eps \<subseteq> S" and "\<forall>x\<in>S. direct_imports R G x \<subseteq> S"
  shows "reachable R G eps \<subseteq> S"
proof
  fix y assume "y \<in> reachable R G eps"
  then obtain x where x: "x \<in> set eps" and "(x, y) \<in> (import_rel R G)\<^sup>*"
    unfolding reachable_def by auto
  from this(2) show "y \<in> S"
  proof (induction rule: rtrancl_induct)
    case base
    with x assms(1) show ?case by auto
  next
    case (step y z)
    with assms(2) show ?case by (auto simp: import_rel_def)
  qed
qed

lemma build_reachable:
  assumes "createFromMultipleEntryPoints n R G eps = Some (tr, Inr g)"
  shows "set (getResolvedFiles g) = reachable R G eps"
proof
  show "reachable R G eps \<subseteq> set (getResolvedFiles g)"
    using build_entries [OF assms] build_closed [OF assms] by (intro reachable_least) auto
next
  show "set (getResolvedFiles g) \<subseteq> reachable R G eps"
  proof
    fix x assume "x \<in> set (getResolvedFiles g)"
    then have "x \<in> set (visits tr)" by (simp add: build_keys [OF assms])
    then obtain ev where ev: "ev \<in> set tr" "call_of ev = GetImports x"
      by (blast dest: visits_are_calls)
    from calls_within_entries [OF createFromMultipleEntryPoints_visit_entries [OF assms]
        entries_reachable reachable_closed ev(1)] ev(2)
    show "x \<in> reachable R G eps" by simp
  qed
qed

section \<open>Properties of the build\<close>

lemma count_list_distinct:
  "distinct xs \<Longrightarrow> count_list xs x = (if x \<in> set xs then 1 else 0)"
  by (induction xs) auto

lemma failures_last:
  assumes "tr \<noteq> []" and "failures R G (butlast tr) = []"
    and "call_error R G (call_of (last tr)) = Some e"
  shows "failures R G tr = [e]"
proof -
  from assms(1) have "tr = butlast tr @ [last tr]" by simp
  then have "failures R G tr = failures R G (butlast tr) @ failures R G [last tr]"
    by (metis failures_simps(3))
  with assms(2,3) show ?thesis by simp
qed

lemma example_import_rel:
  "(FileA, FileB) \<in> import_rel example_resolver cycle_imports"
  "(FileB, FileA) \<in> import_rel example_resolver cycle_imports"
  "(FileA, FileC) \<in> import_rel example_resolver diamond_imports"
  "(FileB, FileC) \<in> import_rel example_resolver diamond_imports"
  by (simp_all add: import_rel_def direct_imports_def imports_of_def example_resolver_def)

text \<open>
  Claim C3. When the build returns a graph, every file reachable from an entry point
  through successful resolutions is a key of the graph, and the dependency set of every
  key holds each of the direct imports of that file.
\<close>

theorem completeness:
  assumes "createFromMultipleEntryPoints n R G eps = Some (tr, Inr g)"
  shows "reachable R G eps \<subseteq> set (getResolvedFiles g) \<and>
         (\<forall>f\<in>set (getResolvedFiles g).
            \<exists>deps. Map_get (dependenciesPerFile g) f = Some deps \<and> direct_imports R G f \<subseteq> set deps)"
proof (intro conjI ballI)
  show "reachable R G eps \<subseteq> set (getResolvedFiles g)"
    by (simp add: build_reachable [OF assms])
next
  fix f assume f: "f \<in> set (getResolvedFiles g)"
  from stored_set_of_key [OF f] build_deps [OF assms f]
  show "\<exists>deps. Map_get (dependenciesPerFile g) f = Some deps \<and> direct_imports R G f \<subseteq> set deps"
    by auto
qed

theorem completeness_witness:
  "createFromMultipleEntryPoints 2 example_resolver chain_imports [FileA] =
     Some (chain_calls, Inr chain_graph) \<and>
   reachable example_resolver chain_imports [FileA] \<subseteq> set (getResolvedFiles chain_graph) \<and>
   getResolvedFiles chain_graph = [FileA, FileB] \<and>
   Map_get (dependenciesPerFile chain_graph) FileA = Some [FileB] \<and>
   direct_imports example_resolver chain_imports FileA \<subseteq> set [FileB] \<and>
   Map_get (dependenciesPerFile chain_graph) FileB = Some [] \<and>
   direct_imports example_resolver chain_imports FileB \<subseteq> set []"
proof -
  have keys: "getResolvedFiles chain_graph = [FileA, FileB]"
    by (simp add: chain_graph_def getResolvedFiles_def Map_keys_def)
  have deps: "Map_get (dependenciesPerFile chain_graph) FileA = Some [FileB]"
    "Map_get (dependenciesPerFile chain_graph) FileB = Some []"
    by (simp_all add: chain_graph_def Map_get_def)
  from completeness [OF chain_build] keys deps chain_build show ?thesis
    by simp
qed

text \<open>
  Claim C6. When the build returns a graph, every entry point is a key of it; the only
  other way for a build to return is with the exception thrown by its last call to the
  extractor or the resolver.
\<close>

theorem entry_points_become_keys:
  assumes "createFromMultipleEntryPoints n R G eps = Some (tr, res)"
  shows "(\<exists>g. res = Inr g \<and> set eps \<subseteq> set (getResolvedFiles g)) \<or>
         (\<exists>e. res = Inl e \<and> tr \<noteq> [] \<and> call_error R G (call_of (last tr)) = Some e)"
proof (cases res)
  case (Inl e)
  with failures_entries [OF createFromMultipleEntryPoints_visit_entries [OF assms]]
  show ?thesis by simp
next
  case (Inr g)
  with build_entries [OF assms [unfolded Inr]] show ?thesis by simp
qed

theorem entry_points_become_keys_witness:
  "createFromMultipleEntryPoints 2 example_resolver diamond_imports [FileA, FileB] =
     Some (diamond_calls, Inr diamond_graph) \<and>
   set [FileA, FileB] \<subseteq> set (getResolvedFiles diamond_graph)"
  using entry_points_become_keys [OF diamond_build] diamond_build by simp

text \<open>
  Claim C7. \<^verbatim>\<open>getResolvedFiles\<close> yields the keys in admission order: the files in the
  order in which their visits began (each visit admits its file and then calls the
  extractor on it), each of them once; and at the moment of every call the key sequence
  of the map is the sequence of the files visited so far.
\<close>

theorem resolved_files_in_admission_order:
  assumes "createFromMultipleEntryPoints n R G eps = Some (tr, Inr g)"
  shows "getResolvedFiles g = visits tr \<and> distinct (getResolvedFiles g) \<and> admission_log [] tr"
proof (intro conjI)
  show "getResolvedFiles g = visits tr"
    by (rule build_keys [OF assms])
  show "distinct (getResolvedFiles g)"
    using build_distinct [OF assms] by (simp add: build_keys [OF assms])
  show "admission_log [] tr"
    using admission_entries [OF createFromMultipleEntryPoints_visit_entries [OF assms]]
    by simp
qed

theorem resolved_files_in_admission_order_witness:
  "createFromMultipleEntryPoints 2 example_resolver diamond_imports [FileA, FileB] =
     Some (diamond_calls, Inr diamond_graph) \<and>
   getResolvedFiles diamond_graph = [FileA, FileC, FileB] \<and>
   visits diamond_calls = [FileA, FileC, FileB] \<and>
   distinct (getResolvedFiles diamond_graph) \<and> admission_log [] diamond_calls"
proof -
  have "visits diamond_calls = [FileA, FileC, FileB]"
    by (simp add: diamond_calls_def)
  with resolved_files_in_admission_order [OF diamond_build] diamond_build
  show ?thesis by simp
qed

text \<open>
  Claim C10. \<^verbatim>\<open>createFromEntryPoint\<close> on an entry point is
  \<^verbatim>\<open>createFromMultipleEntryPoints\<close> on the list that holds just that entry point: the
  same calls and the same graph or exception, at every depth; both are one visit of the
  entry point on the fresh graph.
\<close>

theorem createFromEntryPoint_singleton:
  "createFromEntryPoint n R G e = createFromMultipleEntryPoints n R G [e] \<and>
   createFromMultipleEntryPoints n R G [e] = addDependenciesFrom n R G e (constructor [e])"
  by (auto simp: createFromEntryPoint_def createFromMultipleEntryPoints_def
      split: option.splits sum.splits)

text \<open>
  Claim C5. At the moment of every call the file the call works on is already a key: a
  visit admits its file before it calls the extractor on it (the set stored for the file
  is then still empty) and before it resolves or visits any of its dependencies. Keys are
  never lost from one call to the next, so a file whose visit has begun is a key at every
  later call, whether or not its dependency set is complete by then.
\<close>

theorem admitted_before_any_work:
  assumes "createFromMultipleEntryPoints n R G eps = Some (tr, res)"
  shows "(\<forall>ev\<in>set tr. \<forall>f. call_of ev = GetImports f \<longrightarrow>
            f \<in> keys_at ev \<and> Map_get (store_at ev) f = Some []) \<and>
         (\<forall>i j. i \<le> j \<longrightarrow> j < length tr \<longrightarrow> subject (call_of (tr ! i)) \<in> keys_at (tr ! j)) \<and>
         keys_grow tr"
proof (intro conjI ballI allI impI)
  note rel = createFromMultipleEntryPoints_visit_entries [OF assms]
  show grow: "keys_grow tr"
    by (rule stores_grow_entries [OF rel])
  {
    fix ev f assume ev: "ev \<in> set tr" and c: "call_of ev = GetImports f"
    from subject_is_key_entries [OF rel ev] c show "f \<in> keys_at ev" by simp
    from empty_at_extract_entries [OF rel ev c] show "Map_get (store_at ev) f = Some []" .
  }
  fix i j assume ij: "i \<le> j" "j < length tr"
  then have i: "tr ! i \<in> set tr" and j: "tr ! j \<in> set tr" by simp_all
  have "keys_at (tr ! i) \<subseteq> keys_at (tr ! j)"
  proof (cases "i = j")
    case False
    with ij grow show ?thesis
      by (simp add: keys_grow_def sorted_wrt_iff_nth_less)
  qed simp
  with subject_is_key_entries [OF rel i] show "subject (call_of (tr ! i)) \<in> keys_at (tr ! j)"
    by auto
qed

theorem admitted_before_any_work_witness:
  "createFromMultipleEntryPoints 2 example_resolver cycle_imports [FileA] =
     Some (cycle_calls, Inr cycle_graph) \<and>
   cycle_calls ! 2 \<in> set cycle_calls \<and>
   call_of (cycle_calls ! 2) = GetImports FileB \<and>
   FileB \<in> keys_at (cycle_calls ! 2) \<and>
   Map_get (store_at (cycle_calls ! 2)) FileB = Some [] \<and>
   (0::nat) \<le> 3 \<and> 3 < length cycle_calls \<and>
   subject (call_of (cycle_calls ! 0)) \<in> keys_at (cycle_calls ! 3) \<and>
   keys_grow cycle_calls"
proof -
  have ev: "cycle_calls ! 2 \<in> set cycle_calls" "call_of (cycle_calls ! 2) = GetImports FileB"
    and len: "(0::nat) \<le> 3" "3 < length cycle_calls"
    by (simp_all add: cycle_calls_def)
  from admitted_before_any_work [OF cycle_build] ev len cycle_build show ?thesis
    by blast
qed

text \<open>
  Claim C2, as stated: a file reached by two import paths is a key once, and the extractor
  and the resolver are called exactly once for it. On the build of the entry points \<open>A\<close>
  and \<open>B\<close> that both import \<open>C\<close>, the resolver is called twice with a specifier that
  resolves to \<open>C\<close>, and never with \<open>C\<close> as the source file, since \<open>C\<close> imports
  nothing.
\<close>

theorem resolver_calls_counterexample:
  "createFromMultipleEntryPoints 2 example_resolver diamond_imports [FileA, FileB] =
     Some (diamond_calls, Inr diamond_graph) \<and>
   (FileA, FileC) \<in> import_rel example_resolver diamond_imports \<and>
   (FileB, FileC) \<in> import_rel example_resolver diamond_imports \<and>
   count_list (visits diamond_calls) FileC = 1 \<and>
   length (resolves_of FileC diamond_calls) = 0 \<and>
   resolved_to example_resolver FileC diamond_calls = 2"
proof -
  have "count_list (visits diamond_calls) FileC = 1"
    "length (resolves_of FileC diamond_calls) = 0"
    "resolved_to example_resolver FileC diamond_calls = 2"
    by (simp_all add: diamond_calls_def example_resolver_def)
  with diamond_build example_import_rel(3,4) show ?thesis by simp
qed

text \<open>
  Claim C2, amended. In a build that returns a graph, the keys are pairwise distinct, and
  for every key (so for every file reached by two or more import paths or from several
  entry points) the extractor is called exactly once on the file and the resolver is
  called with the file as source exactly once for each specifier of its import list, in
  the order of the list; for a file that is not a key neither is called.
\<close>

theorem each_file_processed_once:
  assumes "createFromMultipleEntryPoints n R G eps = Some (tr, Inr g)"
  shows "distinct (getResolvedFiles g) \<and>
         (\<forall>f\<in>set (getResolvedFiles g).
            count_list (visits tr) f = 1 \<and> resolves_of f tr = imports_of G f) \<and>
         (\<forall>f. f \<notin> set (getResolvedFiles g) \<longrightarrow>
            count_list (visits tr) f = 0 \<and> resolves_of f tr = [])"
proof -
  note rel = createFromMultipleEntryPoints_visit_entries [OF assms]
  note keys = build_keys [OF assms]
  note dist = build_distinct [OF assms]
  from resolves_of_entries [OF rel refl] count_list_distinct [OF dist] dist
  show ?thesis by (simp add: keys)
qed

theorem each_file_processed_once_witness:
  "createFromMultipleEntryPoints 2 example_resolver diamond_imports [FileA, FileB] =
     Some (diamond_calls, Inr diamond_graph) \<and>
   distinct (getResolvedFiles diamond_graph) \<and>
   FileC \<in> set (getResolvedFiles diamond_graph) \<and>
   count_list (visits diamond_calls) FileC = 1 \<and>
   resolves_of FileC diamond_calls = imports_of diamond_imports FileC \<and>
   FileA \<in> set (getResolvedFiles diamond_graph) \<and>
   count_list (visits diamond_calls) FileA = 1 \<and>
   resolves_of FileA diamond_calls = imports_of diamond_imports FileA"
proof -
  have "FileC \<in> set (getResolvedFiles diamond_graph)"
    "FileA \<in> set (getResolvedFiles diamond_graph)"
    by (simp_all add: diamond_graph_def getResolvedFiles_def Map_keys_def)
  with each_file_processed_once [OF diamond_build] diamond_build show ?thesis
    by blast
qed

lemma failures_empty_iff:
  "failures R G tr = [] \<longleftrightarrow> (\<forall>ev\<in>set tr. call_error R G (call_of ev) = None)"
  by (induction tr) (auto split: option.splits)

lemma resolves_are_calls:
  "i \<in> set (resolves_of x tr) \<Longrightarrow> \<exists>ev\<in>set tr. call_of ev = ResolveImport x i"
  by (induction x tr rule: resolves_of.induct) (auto split: if_splits)

text \<open>
  A build that returns a graph has called the extractor on every reachable file and the
  resolver on every specifier of its import list, and each of these calls succeeded.
\<close>

lemma build_calls_succeeded:
  assumes run: "createFromMultipleEntryPoints n R G eps = Some (tr, Inr g)"
    and x: "x \<in> reachable R G eps"
  shows "\<exists>imps. G x = Inr imps \<and> (\<forall>i\<in>set imps. \<exists>d. R x i = Inr d)"
proof -
  note rel = createFromMultipleEntryPoints_visit_entries [OF run]
  from failures_entries [OF rel] have ok: "\<forall>ev\<in>set tr. call_error R G (call_of ev) = None"
    by (simp add: failures_empty_iff)
  from x have v: "x \<in> set (visits tr)"
    using build_reachable [OF run] build_keys [OF run] by simp
  then obtain ev where "ev \<in> set tr" "call_of ev = GetImports x"
    by (blast dest: visits_are_calls)
  with ok have "call_error R G (GetImports x) = None" by force
  then obtain imps where imps: "G x = Inr imps"
    by (auto split: sum.splits)
  have "\<exists>d. R x i = Inr d" if "i \<in> set imps" for i
  proof -
    from resolves_of_entries [OF rel refl, of x] v imps that
    have "i \<in> set (resolves_of x tr)" by (simp add: imports_of_def)
    then obtain ev where "ev \<in> set tr" "call_of ev = ResolveImport x i"
      by (blast dest: resolves_are_calls)
    with ok have "call_error R G (ResolveImport x i) = None" by force
    then show ?thesis by (auto split: sum.splits)
  qed
  with imps show ?thesis by blast
qed

text \<open>
  A build that returns an exception got it from a call about a reachable file: from the
  extractor on the file, or from the resolver on a specifier of its import list.
\<close>

lemma build_error_origin:
  assumes run: "createFromMultipleEntryPoints n R G eps = Some (tr, Inl e)"
  shows "\<exists>x\<in>reachable R G eps. G x = Inl e \<or> (\<exists>i\<in>set (imports_of G x). R x i = Inl e)"
proof -
  note rel = createFromMultipleEntryPoints_visit_entries [OF run]
  from failures_entries [OF rel]
  have ne: "tr \<noteq> []" and err: "call_error R G (call_of (last tr)) = Some e"
    by simp_all
  from ne have "last tr \<in> set tr" by simp
  from calls_within_entries [OF rel entries_reachable reachable_closed this]
  have s: "subject (call_of (last tr)) \<in> reachable R G eps"
    and i: "\<forall>x i. call_of (last tr) = ResolveImport x i \<longrightarrow> i \<in> set (imports_of G x)"
    by simp_all
  show ?thesis
  proof (cases "call_of (last tr)")
    case (GetImports x)
    with s err show ?thesis by (auto split: sum.splits)
  next
    case (ResolveImport x j)
    with s i err show ?thesis by (auto split: sum.splits)
  qed
qed

lemma returned_outcome_failures:
  assumes "createFromMultipleEntryPoints n R G eps = Some (tr, res)"
  shows "(failures R G tr = [] \<and> (\<exists>g. res = Inr g)) \<or>
         (\<exists>e. res = Inl e \<and> failures R G tr = [e] \<and> tr \<noteq> [] \<and>
              call_error R G (call_of (last tr)) = Some e)"
proof (cases res)
  case (Inl e)
  with failures_entries [OF createFromMultipleEntryPoints_visit_entries [OF assms]]
  have "tr \<noteq> []" "failures R G (butlast tr) = []"
    "call_error R G (call_of (last tr)) = Some e"
    by simp_all
  with failures_last [OF this] Inl show ?thesis by simp
next
  case (Inr g)
  with failures_entries [OF createFromMultipleEntryPoints_visit_entries [OF assms]]
  show ?thesis by simp
qed

lemma reachable_cong:
  assumes "set eps' = set eps" and "\<forall>f. direct_imports R' G' f = direct_imports R G f"
  shows "reachable R' G' eps' = reachable R G eps"
  using assms by (simp add: reachable_def import_rel_def)

text \<open>
  Claim C4. Let the entry points lie in a finite set of files that holds the direct
  imports of each of its files. Then the build returns, and it returns an exception
  exactly when the extractor fails on a reachable file or the resolver fails on a
  specifier of the import list of a reachable file: in that case exactly one call of the
  build has failed, it is the last call the build made, and the build returns the
  exception of that call and no graph, whatever the map held by then. Otherwise no call
  has failed and the build returns a graph.
\<close>

theorem build_fails_with_first_error:
  assumes "finite S" and "set eps \<subseteq> S" and "\<forall>x\<in>S. direct_imports R G x \<subseteq> S"
  shows "\<exists>tr res. createFromMultipleEntryPoints (card S) R G eps = Some (tr, res) \<and>
           ((failures R G tr = [] \<and> (\<exists>g. res = Inr g)) \<or>
            (\<exists>e. res = Inl e \<and> failures R G tr = [e] \<and> tr \<noteq> [] \<and>
                 call_error R G (call_of (last tr)) = Some e)) \<and>
           ((\<exists>e. res = Inl e) \<longleftrightarrow>
            (\<exists>x\<in>reachable R G eps.
               (\<exists>e. G x = Inl e) \<or> (\<exists>i\<in>set (imports_of G x). \<exists>e. R x i = Inl e)))"
proof -
  from createFromMultipleEntryPoints_returns [OF assms] obtain tr res where
    run: "createFromMultipleEntryPoints (card S) R G eps = Some (tr, res)"
    by auto
  have "(\<exists>e. res = Inl e) \<longleftrightarrow>
      (\<exists>x\<in>reachable R G eps.
         (\<exists>e. G x = Inl e) \<or> (\<exists>i\<in>set (imports_of G x). \<exists>e. R x i = Inl e))"
  proof (cases res)
    case (Inl e)
    from build_error_origin [OF run [unfolded Inl]] Inl show ?thesis by blast
  next
    case (Inr g)
    have "\<not> ((\<exists>e. G x = Inl e) \<or> (\<exists>i\<in>set (imports_of G x). \<exists>e. R x i = Inl e))"
      if "x \<in> reachable R G eps" for x
      using build_calls_succeeded [OF run [unfolded Inr] that]
      by (fastforce simp: imports_of_def)
    with Inr show ?thesis by auto
  qed
  with run returned_outcome_failures [OF run] show ?thesis by blast
qed

theorem build_fails_with_first_error_witness:
  "finite {FileA} \<and> set [FileA] \<subseteq> {FileA} \<and>
   direct_imports example_resolver broken_imports FileA \<subseteq> {FileA} \<and>
   (\<exists>tr res. createFromMultipleEntryPoints (card {FileA}) example_resolver broken_imports
                [FileA] = Some (tr, res) \<and>
      ((failures example_resolver broken_imports tr = [] \<and> (\<exists>g. res = Inr g)) \<or>
       (\<exists>e. res = Inl e \<and> failures example_resolver broken_imports tr = [e] \<and> tr \<noteq> [] \<and>
            call_error example_resolver broken_imports (call_of (last tr)) = Some e)) \<and>
      ((\<exists>e. res = Inl e) \<longleftrightarrow>
       (\<exists>x\<in>reachable example_resolver broken_imports [FileA].
          (\<exists>e. broken_imports x = Inl e) \<or>
          (\<exists>i\<in>set (imports_of broken_imports x). \<exists>e. example_resolver x i = Inl e)))) \<and>
   example_resolver FileA ''./missing'' = Inl (ResolutionError FileA ''./missing'') \<and>
   createFromMultipleEntryPoints 1 example_resolver broken_imports [FileA] =
     Some (broken_calls, Inl (ResolutionError FileA ''./missing'')) \<and>
   call_of (last broken_calls) = ResolveImport FileA ''./missing'' \<and>
   store_at (last broken_calls) = [(FileA, [FileA])]"
proof -
  have fin: "finite {FileA}" and sub: "set [FileA] \<subseteq> {FileA}"
    by simp_all
  have closed: "direct_imports example_resolver broken_imports FileA \<subseteq> {FileA}"
    by (simp add: direct_imports_def imports_of_def example_resolver_def)
  then have closed': "\<forall>x\<in>{FileA}. direct_imports example_resolver broken_imports x \<subseteq> {FileA}"
    by simp
  have facts: "example_resolver FileA ''./missing'' = Inl (ResolutionError FileA ''./missing'')"
    "call_of (last broken_calls) = ResolveImport FileA ''./missing''"
    "store_at (last broken_calls) = [(FileA, [FileA])]"
    by (simp_all add: broken_calls_def example_resolver_def)
  from build_fails_with_first_error [OF fin sub closed'] fin sub closed facts broken_build
  show ?thesis by blast
qed

text \<open>
  Claim C9. Two runs of the build that return a graph return the same set of keys and
  the same dependency set for each key whenever the resolver and the extractor give each
  file the same direct imports in both runs and the entry points are the same files. The
  two runs may differ in the depth they need, in the order of the entry points and in
  the order and repetition of the specifiers in the import lists, so in the order in
  which they visit the files; two runs on the same entry-point sequence with the same
  resolver and extractor are the special case. The common key set is the set of reachable
  files, and the common dependency set of a key is its set of direct imports.
\<close>

theorem two_builds_agree:
  assumes "createFromMultipleEntryPoints n R G eps = Some (tr, Inr g)"
    and "createFromMultipleEntryPoints m R' G' eps' = Some (tr', Inr g')"
    and "set eps' = set eps"
    and "\<forall>f. direct_imports R' G' f = direct_imports R G f"
  shows "set (getResolvedFiles g) = reachable R G eps \<and>
         set (getResolvedFiles g') = set (getResolvedFiles g) \<and>
         (\<forall>f\<in>set (getResolvedFiles g).
            \<exists>deps deps'. Map_get (dependenciesPerFile g) f = Some deps \<and>
              Map_get (dependenciesPerFile g') f = Some deps' \<and>
              set deps' = set deps \<and> set deps = direct_imports R G f)"
proof (intro conjI ballI)
  show keys: "set (getResolvedFiles g) = reachable R G eps"
    by (rule build_reachable [OF assms(1)])
  show keys': "set (getResolvedFiles g') = set (getResolvedFiles g)"
    using build_reachable [OF assms(2)] reachable_cong [OF assms(3,4)] keys by simp
  fix f assume f: "f \<in> set (getResolvedFiles g)"
  with keys' have f': "f \<in> set (getResolvedFiles g')" by simp
  from stored_set_of_key [OF f] build_deps [OF assms(1) f]
  obtain deps where "Map_get (dependenciesPerFile g) f = Some deps"
    "set deps = direct_imports R G f"
    by auto
  moreover from stored_set_of_key [OF f'] build_deps [OF assms(2) f'] assms(4)
  obtain deps' where "Map_get (dependenciesPerFile g') f = Some deps'"
    "set deps' = direct_imports R G f"
    by auto
  ultimately show "\<exists>deps deps'. Map_get (dependenciesPerFile g) f = Some deps \<and>
      Map_get (dependenciesPerFile g') f = Some deps' \<and>
      set deps' = set deps \<and> set deps = direct_imports R G f"
    by simp
qed

theorem two_builds_agree_witness:
  "createFromMultipleEntryPoints 2 example_resolver fork_imports [FileA, FileB] =
     Some (fork_calls, Inr fork_graph) \<and>
   createFromMultipleEntryPoints 4 example_resolver fork_imports_rev [FileB, FileA] =
     Some (fork_rev_calls, Inr fork_rev_graph) \<and>
   set [FileB, FileA] = set [FileA, FileB] \<and>
   (\<forall>f. direct_imports example_resolver fork_imports_rev f =
        direct_imports example_resolver fork_imports f) \<and>
   getResolvedFiles fork_graph = [FileA, FileB, FileC] \<and>
   getResolvedFiles fork_rev_graph = [FileB, FileA, FileC] \<and>
   set (getResolvedFiles fork_rev_graph) = set (getResolvedFiles fork_graph) \<and>
   Map_get (dependenciesPerFile fork_graph) FileA = Some [FileB, FileC] \<and>
   Map_get (dependenciesPerFile fork_rev_graph) FileA = Some [FileC, FileB] \<and>
   set [FileC, FileB] = set [FileB, FileC] \<and>
   set [FileB, FileC] = direct_imports example_resolver fork_imports FileA"
proof -
  have eps: "set [FileB, FileA] = set [FileA, FileB]"
    by auto
  have same: "\<forall>f. direct_imports example_resolver fork_imports_rev f =
      direct_imports example_resolver fork_imports f"
  proof
    fix f show "direct_imports example_resolver fork_imports_rev f =
        direct_imports example_resolver fork_imports f"
      by (cases f) (auto simp: direct_imports_def imports_of_def example_resolver_def)
  qed
  have keys: "getResolvedFiles fork_graph = [FileA, FileB, FileC]"
    "getResolvedFiles fork_rev_graph = [FileB, FileA, FileC]"
    by (simp_all add: fork_graph_def fork_rev_graph_def getResolvedFiles_def Map_keys_def)
  have stored: "Map_get (dependenciesPerFile fork_graph) FileA = Some [FileB, FileC]"
    "Map_get (dependenciesPerFile fork_rev_graph) FileA = Some [FileC, FileB]"
    by (simp_all add: fork_graph_def fork_rev_graph_def Map_get_def)
  from two_builds_agree [OF fork_build fork_rev_build eps same] keys
  have "set (getResolvedFiles fork_rev_graph) = set (getResolvedFiles fork_graph)"
    and "\<exists>deps deps'. Map_get (dependenciesPerFile fork_graph) FileA = Some deps \<and>
      Map_get (dependenciesPerFile fork_rev_graph) FileA = Some deps' \<and>
      set deps' = set deps \<and> set deps = direct_imports example_resolver fork_imports FileA"
    by simp_all
  with stored have "set [FileC, FileB] = set [FileB, FileC]"
    "set [FileB, FileC] = direct_imports example_resolver fork_imports FileA"
    "set (getResolvedFiles fork_rev_graph) = set (getResolvedFiles fork_graph)"
    by simp_all
  with fork_build fork_rev_build eps same keys stored show ?thesis
    by blast
qed

text \<open>
  Claim C8, as stated: the graph exposes an operation \<^verbatim>\<open>dependenciesOf(file)\<close> that returns
  the empty set for an admitted file without dependencies. On the graph of the build
  from \<open>A\<close>, where \<open>A\<close> imports \<open>B\<close> and \<open>B\<close> imports nothing, \<open>B\<close> is admitted and has no
  dependencies, the graph has no member of that name, and calling it throws a
  \<^verbatim>\<open>TypeError\<close>.
\<close>

theorem dependenciesOf_counterexample:
  "createFromMultipleEntryPoints 2 example_resolver chain_imports [FileA] =
     Some (chain_calls, Inr chain_graph) \<and>
   FileB \<in> set (getResolvedFiles chain_graph) \<and>
   direct_imports example_resolver chain_imports FileB = {} \<and>
   member_of chain_graph ''dependenciesOf'' = None \<and>
   call_member chain_graph ''dependenciesOf'' = Inl TypeError"
proof -
  have "FileB \<in> set (getResolvedFiles chain_graph)"
    by (simp add: chain_graph_def getResolvedFiles_def Map_keys_def)
  moreover have "direct_imports example_resolver chain_imports FileB = {}"
    by (simp add: direct_imports_def imports_of_def)
  moreover have "member_of chain_graph ''dependenciesOf'' = None"
    "call_member chain_graph ''dependenciesOf'' = Inl TypeError"
    by (simp_all add: member_of_def call_member_def)
  ultimately show ?thesis using chain_build by simp
qed

text \<open>
  Claim C8, amended. The graph of a build that returns has no \<^verbatim>\<open>dependenciesOf\<close> operation
  (calling it throws a \<^verbatim>\<open>TypeError\<close> for every file); what it exposes is the map
  \<^verbatim>\<open>dependenciesPerFile\<close>. Under a file that was admitted the map stores a set that holds
  exactly the direct imports of the file, so the empty set when the file has no
  dependencies, and it stores nothing under a file that was never admitted.
\<close>

theorem graph_exposes_stored_sets:
  assumes "createFromMultipleEntryPoints n R G eps = Some (tr, Inr g)"
  shows "call_member g ''dependenciesOf'' = Inl TypeError \<and>
         member_of g ''dependenciesPerFile'' = Some (MapField (dependenciesPerFile g)) \<and>
         (f \<in> set (visits tr) \<longrightarrow>
            (\<exists>deps. Map_get (dependenciesPerFile g) f = Some deps \<and>
               set deps = direct_imports R G f) \<and>
            (direct_imports R G f = {} \<longrightarrow> Map_get (dependenciesPerFile g) f = Some [])) \<and>
         (f \<notin> set (visits tr) \<longrightarrow> Map_get (dependenciesPerFile g) f = None)"
proof (intro conjI impI)
  show "call_member g ''dependenciesOf'' = Inl TypeError"
    by (simp add: call_member_def member_of_def)
  show "member_of g ''dependenciesPerFile'' = Some (MapField (dependenciesPerFile g))"
    by (simp add: member_of_def)
next
  assume "f \<in> set (visits tr)"
  then have f: "f \<in> set (getResolvedFiles g)"
    by (simp add: build_keys [OF assms])
  from stored_set_of_key [OF f] build_deps [OF assms f]
  show ex: "\<exists>deps. Map_get (dependenciesPerFile g) f = Some deps \<and>
      set deps = direct_imports R G f"
    by simp
  assume "direct_imports R G f = {}"
  with ex show "Map_get (dependenciesPerFile g) f = Some []" by auto
next
  assume "f \<notin> set (visits tr)"
  then have "f \<notin> set (getResolvedFiles g)"
    by (simp add: build_keys [OF assms])
  then show "Map_get (dependenciesPerFile g) f = None"
    by (simp add: getResolvedFiles_def Map_get_eq_None)
qed

theorem graph_exposes_stored_sets_witness:
  "createFromMultipleEntryPoints 2 example_resolver chain_imports [FileA] =
     Some (chain_calls, Inr chain_graph) \<and>
   call_member chain_graph ''dependenciesOf'' = Inl TypeError \<and>
   member_of chain_graph ''dependenciesPerFile'' =
     Some (MapField (dependenciesPerFile chain_graph)) \<and>
   FileB \<in> set (visits chain_calls) \<and>
   direct_imports example_resolver chain_imports FileB = {} \<and>
   Map_get (dependenciesPerFile chain_graph) FileB = Some [] \<and>
   FileC \<notin> set (visits chain_calls) \<and>
   Map_get (dependenciesPerFile chain_graph) FileC = None"
proof -
  have "FileB \<in> set (visits chain_calls)" "FileC \<notin> set (visits chain_calls)"
    by (simp_all add: chain_calls_def)
  moreover have "direct_imports example_resolver chain_imports FileB = {}"
    by (simp add: direct_imports_def imports_of_def)
  ultimately show ?thesis
    using graph_exposes_stored_sets [OF chain_build, of FileB]
      graph_exposes_stored_sets [OF chain_build, of FileC] chain_build
    by simp
qed

text \<open>
  Claim C1, as stated: whenever the import relation has a cycle, the build terminates.
  On the numbered files the file \<open>0\<close> imports itself, so the import relation has a cycle
  of length one, and the build from the file \<open>0\<close> does not return within any depth of
  nested calls: after the self-import it goes on to the files \<open>1\<close>, \<open>2\<close>, and so on.
\<close>

theorem cycle_counterexample:
  "(0, 0) \<in> import_rel looping_resolver looping_imports \<and>
   (\<forall>n. createFromEntryPoint n looping_resolver looping_imports 0 = None) \<and>
   (\<forall>n. createFromMultipleEntryPoints n looping_resolver looping_imports [0] = None)"
proof (intro conjI allI)
  show "(0, 0) \<in> import_rel looping_resolver looping_imports"
    by (simp add: import_rel_def direct_imports_def imports_of_def
        looping_imports_def looping_resolver_def)
  fix n
  show "createFromEntryPoint n looping_resolver looping_imports 0 = None"
    by (rule looping_build_never_returns)
  then show "createFromMultipleEntryPoints n looping_resolver looping_imports [0] = None"
    by (simp add: createFromEntryPoint_def)
qed

text \<open>
  Claim C1, amended. Let the entry points lie in a finite set of files that holds the
  direct imports of each of its files. Then the build terminates, cycles and self-imports
  or not, within a depth of as many nested calls as the set has files. If it returns a
  graph, the keys of the graph are the files reachable from the entry points and each of
  them, so each node of a cycle that is reachable from an entry point, is mapped to
  exactly its direct imports; and it does return a graph when extraction succeeds on
  every file of the set and every specifier of the import lists resolves. For the entry
  point \<open>A\<close> with \<open>A\<close> importing \<open>B\<close> and \<open>B\<close> importing \<open>A\<close> the graph is
  \<open>{A: {B}, B: {A}}\<close>.
\<close>

theorem build_returns_on_finite_imports:
  assumes "finite S" and "set eps \<subseteq> S" and "\<forall>x\<in>S. direct_imports R G x \<subseteq> S"
  shows "\<exists>tr res. createFromMultipleEntryPoints (card S) R G eps = Some (tr, res) \<and>
           (\<forall>g. res = Inr g \<longrightarrow>
              set (getResolvedFiles g) = reachable R G eps \<and>
              (\<forall>f\<in>reachable R G eps.
                 \<exists>deps. Map_get (dependenciesPerFile g) f = Some deps \<and>
                   set deps = direct_imports R G f)) \<and>
           ((\<forall>x\<in>S. \<exists>imps. G x = Inr imps \<and> (\<forall>i\<in>set imps. \<exists>d. R x i = Inr d)) \<longrightarrow>
              (\<exists>g. res = Inr g))"
proof -
  from createFromMultipleEntryPoints_returns [OF assms] obtain tr res where
    run: "createFromMultipleEntryPoints (card S) R G eps = Some (tr, res)"
    by auto
  have graph: "set (getResolvedFiles g) = reachable R G eps \<and>
      (\<forall>f\<in>reachable R G eps.
         \<exists>deps. Map_get (dependenciesPerFile g) f = Some deps \<and> set deps = direct_imports R G f)"
    if res: "res = Inr g" for g
  proof (intro conjI ballI)
    note run' = run [unfolded res]
    show keys: "set (getResolvedFiles g) = reachable R G eps"
      by (rule build_reachable [OF run'])
    fix f assume "f \<in> reachable R G eps"
    with keys have f: "f \<in> set (getResolvedFiles g)" by simp
    from stored_set_of_key [OF f] build_deps [OF run' f]
    show "\<exists>deps. Map_get (dependenciesPerFile g) f = Some deps \<and> set deps = direct_imports R G f"
      by simp
  qed
  have "\<exists>g. res = Inr g"
    if ok: "\<forall>x\<in>S. \<exists>imps. G x = Inr imps \<and> (\<forall>i\<in>set imps. \<exists>d. R x i = Inr d)"
  proof -
    have "\<forall>x\<in>S. \<exists>imps. G x = Inr imps \<and> (\<forall>i\<in>set imps. \<exists>d\<in>S. R x i = Inr d)"
    proof
      fix x assume x: "x \<in> S"
      with ok obtain imps where imps: "G x = Inr imps" "\<forall>i\<in>set imps. \<exists>d. R x i = Inr d"
        by blast
      have "\<exists>d\<in>S. R x i = Inr d" if i: "i \<in> set imps" for i
      proof -
        from imps(2) i obtain d where d: "R x i = Inr d" by blast
        with imps(1) i have "d \<in> direct_imports R G x"
          by (auto simp: direct_imports_member imports_of_def)
        with assms(3) x d show ?thesis by blast
      qed
      with imps(1) show "\<exists>imps. G x = Inr imps \<and> (\<forall>i\<in>set imps. \<exists>d\<in>S. R x i = Inr d)"
        by blast
    qed
    from createFromMultipleEntryPoints_succeeds [OF assms(1,2) this] run show ?thesis
      by auto
  qed
  with run graph show ?thesis by blast
qed

theorem build_returns_on_finite_imports_witness:
  "finite {FileA, FileB} \<and> set [FileA] \<subseteq> {FileA, FileB} \<and>
   direct_imports example_resolver cycle_imports FileA \<subseteq> {FileA, FileB} \<and>
   direct_imports example_resolver cycle_imports FileB \<subseteq> {FileA, FileB} \<and>
   (FileA, FileB) \<in> import_rel example_resolver cycle_imports \<and>
   (FileB, FileA) \<in> import_rel example_resolver cycle_imports \<and>
   (\<exists>tr res. createFromMultipleEntryPoints (card {FileA, FileB}) example_resolver cycle_imports
                [FileA] = Some (tr, res) \<and>
      (\<forall>g. res = Inr g \<longrightarrow>
         set (getResolvedFiles g) = reachable example_resolver cycle_imports [FileA] \<and>
         (\<forall>f\<in>reachable example_resolver cycle_imports [FileA].
            \<exists>deps. Map_get (dependenciesPerFile g) f = Some deps \<and>
              set deps = direct_imports example_resolver cycle_imports f)) \<and>
      ((\<forall>x\<in>{FileA, FileB}. \<exists>imps. cycle_imports x = Inr imps \<and>
           (\<forall>i\<in>set imps. \<exists>d. example_resolver x i = Inr d)) \<longrightarrow>
         (\<exists>g. res = Inr g))) \<and>
   createFromMultipleEntryPoints 2 example_resolver cycle_imports [FileA] =
     Some (cycle_calls, Inr cycle_graph) \<and>
   Map_get (dependenciesPerFile cycle_graph) FileA = Some [FileB] \<and>
   Map_get (dependenciesPerFile cycle_graph) FileB = Some [FileA]"
proof -
  have fin: "finite {FileA, FileB}" and sub: "set [FileA] \<subseteq> {FileA, FileB}"
    by simp_all
  have closed: "direct_imports example_resolver cycle_imports FileA \<subseteq> {FileA, FileB}"
    "direct_imports example_resolver cycle_imports FileB \<subseteq> {FileA, FileB}"
    by (simp_all add: direct_imports_def imports_of_def example_resolver_def)
  then have closed': "\<forall>x\<in>{FileA, FileB}.
      direct_imports example_resolver cycle_imports x \<subseteq> {FileA, FileB}"
    by simp
  have stored: "Map_get (dependenciesPerFile cycle_graph) FileA = Some [FileB]"
    "Map_get (dependenciesPerFile cycle_graph) FileB = Some [FileA]"
    by (simp_all add: cycle_graph_def Map_get_def)
  from build_returns_on_finite_imports [OF fin sub closed'] fin sub closed
    example_import_rel(1,2) cycle_build stored
  show ?thesis by blast
qed

end
